theory Spec2Isabelle
  imports Complex_Main
begin

section \<open>The game engine (js/game.js)\<close>

text \<open>
  A board is the array of rows of the source; a cell holds 0 (empty), 1 (black) or
  2 (white). Coordinates are JavaScript numbers that the engine checks with
  \<open>Number.isInteger\<close>; they are integers here, and every read of the board is guarded by a
  bounds check as in the source.
\<close>

type_synonym board = "nat list list"
type_synonym cell = "int \<times> int"

record move =
  mx :: int
  my :: int
  mplayer :: nat
  moveNumber :: nat

record engine =
  size_e :: int
  board :: board
  currentPlayer :: nat
  moveHistory :: "move list"
  gameOver :: bool
  winner :: nat
  winLine :: "cell list option"

record place_result =
  valid :: bool
  res_winner :: "nat option"
  res_winLine :: "cell list option"
  reason :: "string option"

text \<open>The direction vectors \<open>[dx, dy]\<close> of game.js, in the order of the source.\<close>

definition GE_DIRECTIONS :: "(int \<times> int) list" where
  "GE_DIRECTIONS = [(1, 0), (0, 1), (1, 1), (1, -1)]"

definition createEmptyBoard :: "int \<Rightarrow> board" where
  "createEmptyBoard n = replicate (nat n) (replicate (nat n) 0)"

definition reset :: "int \<Rightarrow> engine" where
  "reset n = \<lparr> size_e = n, board = createEmptyBoard n, currentPlayer = 1, moveHistory = [],
              gameOver = False, winner = 0, winLine = None \<rparr>"

definition ge_inBounds :: "engine \<Rightarrow> int \<Rightarrow> int \<Rightarrow> bool" where
  "ge_inBounds e x y \<longleftrightarrow> x \<ge> 0 \<and> x < size_e e \<and> y \<ge> 0 \<and> y < size_e e"

text \<open>\<open>this.board[y][x]\<close>: the row is selected by \<open>y\<close>.\<close>

definition cellAt :: "board \<Rightarrow> int \<Rightarrow> int \<Rightarrow> nat" where
  "cellAt b x y = b ! nat y ! nat x"

definition setCell :: "board \<Rightarrow> int \<Rightarrow> int \<Rightarrow> nat \<Rightarrow> board" where
  "setCell b x y v = b[nat y := (b ! nat y)[nat x := v]]"

definition isValidMove :: "engine \<Rightarrow> int \<Rightarrow> int \<Rightarrow> bool" where
  "isValidMove e x y \<longleftrightarrow> ge_inBounds e x y \<and> cellAt (board e) x y = 0"

text \<open>
  The two scans of \<open>_collectLine\<close> are loops without an upper bound
  (\<open>for (let i = 1; ; i++)\<close>); they stop at the first cell that is out of bounds or not the
  player's. Not returning is the value \<open>None\<close>.
\<close>

partial_function (option) collectPos ::
  "engine \<Rightarrow> int \<Rightarrow> int \<Rightarrow> int \<Rightarrow> int \<Rightarrow> nat \<Rightarrow> int \<Rightarrow> cell list \<Rightarrow> cell list option" where
  "collectPos e x y dx dy player i cells =
     (let nx = x + dx * i; ny = y + dy * i in
      if \<not> ge_inBounds e nx ny \<or> cellAt (board e) nx ny \<noteq> player then Some cells
      else collectPos e x y dx dy player (i + 1) (cells @ [(nx, ny)]))"

partial_function (option) collectNeg ::
  "engine \<Rightarrow> int \<Rightarrow> int \<Rightarrow> int \<Rightarrow> int \<Rightarrow> nat \<Rightarrow> int \<Rightarrow> cell list \<Rightarrow> cell list option" where
  "collectNeg e x y dx dy player i cells =
     (let nx = x - dx * i; ny = y - dy * i in
      if \<not> ge_inBounds e nx ny \<or> cellAt (board e) nx ny \<noteq> player then Some cells
      else collectNeg e x y dx dy player (i + 1) ((nx, ny) # cells))"

declare collectPos.simps [code]
declare collectNeg.simps [code]

definition collectLine :: "engine \<Rightarrow> int \<Rightarrow> int \<Rightarrow> int \<Rightarrow> int \<Rightarrow> nat \<Rightarrow> cell list option" where
  "collectLine e x y dx dy player =
     (case collectPos e x y dx dy player 1 [(x, y)] of
        None \<Rightarrow> None
      | Some cells \<Rightarrow> collectNeg e x y dx dy player 1 cells)"

text \<open>
  \<open>GameEngine.checkWin\<close>, with the static flag \<open>GameEngine.ALLOW_OVERLINE\<close> as the
  argument \<open>allow\<close>. The result is the pair (won, line).
\<close>

fun checkWinDirs ::
  "bool \<Rightarrow> engine \<Rightarrow> int \<Rightarrow> int \<Rightarrow> nat \<Rightarrow> (int \<times> int) list \<Rightarrow> (bool \<times> cell list option) option" where
  "checkWinDirs allow e x y player [] = Some (False, None)"
| "checkWinDirs allow e x y player ((dx, dy) # ds) =
     (case collectLine e x y dx dy player of
        None \<Rightarrow> None
      | Some line \<Rightarrow>
          if allow then
            (if length line \<ge> 5 then Some (True, Some (take 5 line))
             else checkWinDirs allow e x y player ds)
          else
            (if length line = 5 then Some (True, Some line)
             else checkWinDirs allow e x y player ds))"

definition ge_checkWin :: "bool \<Rightarrow> engine \<Rightarrow> int \<Rightarrow> int \<Rightarrow> nat \<Rightarrow> (bool \<times> cell list option) option" where
  "ge_checkWin allow e x y player = checkWinDirs allow e x y player GE_DIRECTIONS"

definition ge_isBoardFull :: "engine \<Rightarrow> bool" where
  "ge_isBoardFull e \<longleftrightarrow>
     (\<forall>y \<in> set [0 ..< nat (size_e e)]. \<forall>x \<in> set [0 ..< nat (size_e e)]. board e ! y ! x \<noteq> 0)"

definition placeStone :: "bool \<Rightarrow> engine \<Rightarrow> int \<Rightarrow> int \<Rightarrow> (place_result \<times> engine) option" where
  "placeStone allow e x y =
     (if gameOver e then
        Some (\<lparr> valid = False, res_winner = None, res_winLine = None,
                reason = Some ''Game is already over'' \<rparr>, e)
      else if \<not> isValidMove e x y then
        (if \<not> ge_inBounds e x y then
           Some (\<lparr> valid = False, res_winner = None, res_winLine = None,
                   reason = Some ''Position out of bounds'' \<rparr>, e)
         else
           Some (\<lparr> valid = False, res_winner = None, res_winLine = None,
                   reason = Some ''Cell is already occupied'' \<rparr>, e))
      else
        let player = currentPlayer e;
            e1 = e\<lparr> board := setCell (board e) x y player \<rparr>;
            e2 = e1\<lparr> moveHistory := moveHistory e1 @
                   [\<lparr> mx = x, my = y, mplayer = player,
                      moveNumber = length (moveHistory e1) + 1 \<rparr>] \<rparr>
        in case ge_checkWin allow e2 x y player of
             None \<Rightarrow> None
           | Some (won, line) \<Rightarrow>
               if won then
                 Some (\<lparr> valid = True, res_winner = Some player, res_winLine = line,
                         reason = None \<rparr>,
                       e2\<lparr> gameOver := True, winner := player, winLine := line \<rparr>)
               else if ge_isBoardFull e2 then
                 Some (\<lparr> valid = True, res_winner = Some 3, res_winLine = None,
                         reason = None \<rparr>,
                       e2\<lparr> gameOver := True, winner := 3 \<rparr>)
               else
                 Some (\<lparr> valid = True, res_winner = Some 0, res_winLine = None,
                         reason = None \<rparr>,
                       e2\<lparr> currentPlayer := (if player = 1 then 2 else 1) \<rparr>))"

definition undoMove :: "engine \<Rightarrow> move option \<times> engine" where
  "undoMove e =
     (if length (moveHistory e) = 0 then (None, e)
      else
        let m = last (moveHistory e);
            e1 = e\<lparr> moveHistory := butlast (moveHistory e) \<rparr>;
            e2 = e1\<lparr> board := setCell (board e1) (mx m) (my m) 0 \<rparr>
        in (Some m, e2\<lparr> currentPlayer := mplayer m, gameOver := False, winner := 0,
                         winLine := None \<rparr>))"

text \<open>
  The states an engine object goes through: the constructor (which rejects a size below 5)
  and \<open>reset\<close>, then any sequence of \<open>placeStone\<close> and \<open>undoMove\<close>, under either value of the
  overline flag. \<open>loadState\<close>, which installs whatever state it is handed, is not a step.
\<close>

inductive reachable :: "engine \<Rightarrow> bool" where
  r_new: "5 \<le> n \<Longrightarrow> reachable (reset n)"
| r_place: "reachable e \<Longrightarrow> placeStone allow e x y = Some (r, e') \<Longrightarrow> reachable e'"
| r_undo: "reachable e \<Longrightarrow> undoMove e = (m, e') \<Longrightarrow> reachable e'"

definition board_ok :: "int \<Rightarrow> board \<Rightarrow> bool" where
  "board_ok n b \<longleftrightarrow> length b = nat n \<and> (\<forall>row \<in> set b. length row = nat n)"

definition engine_inv :: "engine \<Rightarrow> bool" where
  "engine_inv e \<longleftrightarrow> 5 \<le> size_e e \<and> board_ok (size_e e) (board e) \<and>
     (\<not> gameOver e \<longrightarrow> winner e = 0 \<and> winLine e = None)"

section \<open>The AI engine (js/ai.js)\<close>

text \<open>
  JavaScript numbers are IEEE 754 doubles. A finite double is modelled as the rational
  number it denotes, and an operation of the source whose exact result need not be a
  double is rounded as the source rounds it: \<open>toDouble\<close> is rounding to the nearest double,
  ties to the even significand, with 53 significant bits above \<open>2^-1022\<close> and the fixed
  spacing \<open>2^-1074\<close> below. Overflow to \<open>Infinity\<close> is not modelled; no score or time of
  the program comes near \<open>2^1024\<close>. The literals 1.1, 0.5 and 0.7 of the source are the
  doubles nearest to 11/10, 1/2 and 7/10. The evaluators and the 70% test of iterative
  deepening are computed with these operations.

  Coordinates and depths are integers. The pattern weights are integers, and the sums
  the source accumulates from them stay integers far below \<open>2^53\<close>, where double addition
  is exact (\<open>toDouble_int\<close> and \<open>accumulators_are_doubles\<close> below); these sums are
  written with \<open>+\<close>. The products of the blocking weights with the literal 0.9 in
  \<open>scoreMoveQuick\<close> are exact as well (\<open>block_products_exact\<close> below) and are written
  with 9/10. The values of \<open>Math.random()\<close> are arbitrary rationals in [0, 1), a superset
  of the doubles there, and the arithmetic of \<open>easyMove\<close> and of the opening book on them
  is exact; what is proved of these picks holds for every value of the draws.
\<close>

definition pow2 :: "int \<Rightarrow> rat" where
  "pow2 e = (if e \<ge> 0 then 2 ^ nat e else 1 / 2 ^ nat (- e))"

text \<open>Rounding of a non-negative rational to the nearest integer, ties to even.\<close>

definition roundEven :: "rat \<Rightarrow> int" where
  "roundEven x =
     (let f = \<lfloor>x\<rfloor>; r = x - of_int f in
      if r < 1 / 2 then f else if r > 1 / 2 then f + 1 else if even f then f else f + 1)"

text \<open>The number of binary digits of a positive integer.\<close>

function bitLength :: "int \<Rightarrow> nat" where
  "bitLength n = (if n \<le> 0 then 0 else Suc (bitLength (n div 2)))"
  by pat_completeness auto
termination
  by (relation "measure nat") auto

declare bitLength.simps [simp del]

text \<open>The exponent \<open>e\<close> with \<open>2^e \<le> x < 2^(e+1)\<close>, for positive \<open>x\<close>.\<close>

definition binade :: "rat \<Rightarrow> int" where
  "binade x =
     (case quotient_of x of (p, q) \<Rightarrow>
        let e = int (bitLength p) - int (bitLength q) in
        if pow2 e \<le> x then e else e - 1)"

definition toDouble :: "rat \<Rightarrow> rat" where
  "toDouble x =
     (if x = 0 then 0
      else let e = max (binade \<bar>x\<bar>) (- 1022) - 52
           in sgn x * of_int (roundEven (\<bar>x\<bar> / pow2 e)) * pow2 e)"

text \<open>The operators \<open>*\<close>, \<open>-\<close> and \<open>+\<close> of the source on doubles.\<close>

definition num_mul :: "rat \<Rightarrow> rat \<Rightarrow> rat" where
  "num_mul x y = toDouble (x * y)"

definition num_sub :: "rat \<Rightarrow> rat \<Rightarrow> rat" where
  "num_sub x y = toDouble (x - y)"

definition num_add :: "rat \<Rightarrow> rat \<Rightarrow> rat" where
  "num_add x y = toDouble (x + y)"

definition lit_1_1 :: rat where "lit_1_1 = toDouble (11 / 10)"
definition lit_0_5 :: rat where "lit_0_5 = toDouble (1 / 2)"
definition lit_0_7 :: rat where "lit_0_7 = toDouble (7 / 10)"
definition lit_0_9 :: rat where "lit_0_9 = toDouble (9 / 10)"

definition EMPTY :: nat where "EMPTY = 0"
definition BLACK :: nat where "BLACK = 1"
definition WHITE :: nat where "WHITE = 2"
definition BOARD_SIZE :: int where "BOARD_SIZE = 15"

definition INF_N :: rat where "INF_N = 1000000000"
definition WIN_SCORE :: rat where "WIN_SCORE = 100000000"

definition FIVE :: rat where "FIVE = 10000000"
definition OPEN_FOUR :: rat where "OPEN_FOUR = 1000000"
definition HALF_OPEN_FOUR :: rat where "HALF_OPEN_FOUR = 100000"
definition OPEN_THREE :: rat where "OPEN_THREE = 10000"
definition HALF_OPEN_THREE :: rat where "HALF_OPEN_THREE = 1000"
definition OPEN_TWO :: rat where "OPEN_TWO = 100"
definition HALF_OPEN_TWO :: rat where "HALF_OPEN_TWO = 10"
definition OPEN_ONE :: rat where "OPEN_ONE = 1"

definition DIRECTIONS :: "(int \<times> int) list" where
  "DIRECTIONS = [(0, 1), (1, 0), (1, 1), (1, -1)]"

definition CENTER :: int where "CENTER = BOARD_SIZE div 2"

text \<open>In ai.js the board is indexed \<open>board[x][y]\<close>: the first coordinate selects the row.\<close>

definition bget :: "board \<Rightarrow> int \<Rightarrow> int \<Rightarrow> nat" where
  "bget b i j = b ! nat i ! nat j"

definition bset :: "board \<Rightarrow> int \<Rightarrow> int \<Rightarrow> nat \<Rightarrow> board" where
  "bset b i j v = b[nat i := (b ! nat i)[nat j := v]]"

text \<open>The cells in the order of the nested loops \<open>for i ... for j ...\<close>.\<close>

definition ALL_CELLS :: "cell list" where
  "ALL_CELLS = concat (map (\<lambda>i. map (\<lambda>j. (i, j)) [0 .. BOARD_SIZE - 1]) [0 .. BOARD_SIZE - 1])"

definition countStones :: "board \<Rightarrow> nat" where
  "countStones b = length (filter (\<lambda>(i, j). bget b i j \<noteq> EMPTY) ALL_CELLS)"

definition inBounds :: "int \<Rightarrow> int \<Rightarrow> bool" where
  "inBounds x y \<longleftrightarrow> x \<ge> 0 \<and> x < BOARD_SIZE \<and> y \<ge> 0 \<and> y < BOARD_SIZE"

definition opponent :: "nat \<Rightarrow> nat" where
  "opponent player = (if player = BLACK then WHITE else BLACK)"

subsection \<open>Candidate generation\<close>

text \<open>
  The state of the scan is the list of candidates and the set \<open>visited\<close> of keys
  \<open>ni * BOARD_SIZE + nj\<close>, kept as a list.
\<close>

definition visitCell :: "board \<Rightarrow> int \<Rightarrow> int \<Rightarrow> cell list \<times> int list \<Rightarrow> cell list \<times> int list" where
  "visitCell b ni nj st =
     (case st of (candidates, visited) \<Rightarrow>
        if inBounds ni nj \<and> bget b ni nj = EMPTY then
          (let key = ni * BOARD_SIZE + nj in
           if key \<notin> set visited then (candidates @ [(ni, nj)], key # visited)
           else (candidates, visited))
        else (candidates, visited))"

definition offsets :: "int \<Rightarrow> (int \<times> int) list" where
  "offsets radius = concat (map (\<lambda>di. map (\<lambda>dj. (di, dj)) [- radius .. radius]) [- radius .. radius])"

definition scanAround :: "board \<Rightarrow> int \<Rightarrow> int \<Rightarrow> int \<Rightarrow> cell list \<times> int list \<Rightarrow> cell list \<times> int list" where
  "scanAround b radius i j st =
     foldl (\<lambda>st (di, dj). visitCell b (i + di) (j + dj) st) st (offsets radius)"

definition scanStones :: "board \<Rightarrow> int \<Rightarrow> (cell list \<times> int list) \<times> bool" where
  "scanStones b radius =
     foldl (\<lambda>(st, hasStone) (i, j).
              if bget b i j \<noteq> EMPTY then (scanAround b radius i j st, True)
              else (st, hasStone))
           (([], []), False) ALL_CELLS"

definition generateCandidates :: "board \<Rightarrow> int \<Rightarrow> cell list" where
  "generateCandidates b radius =
     (case scanStones b radius of
        ((candidates, visited), hasStone) \<Rightarrow>
          if \<not> hasStone then [(CENTER, CENTER)] else candidates)"

subsection \<open>Quick move scoring\<close>

text \<open>
  One scan of \<open>scoreMoveQuick\<close>: \<open>for (k = 1; k <= 4; k++)\<close> along \<open>(sx, sy)\<close>, counting the
  stones of \<open>who\<close> and recording whether the cell that stops the run is empty. The result
  is (count, open).
\<close>

fun scanRun :: "board \<Rightarrow> int \<Rightarrow> int \<Rightarrow> int \<Rightarrow> int \<Rightarrow> nat \<Rightarrow> int list \<Rightarrow> nat \<Rightarrow> nat \<times> bool" where
  "scanRun b x y sx sy who [] n = (n, False)"
| "scanRun b x y sx sy who (k # ks) n =
     (let ni = x + sx * k; nj = y + sy * k in
      if \<not> inBounds ni nj then (n, False)
      else if bget b ni nj = who then scanRun b x y sx sy who ks (n + 1)
      else (n, bget b ni nj = EMPTY))"

text \<open>(total, open ends) of the run of \<open>who\<close> through (x, y) on the axis (dx, dy).\<close>

definition runThrough :: "board \<Rightarrow> int \<Rightarrow> int \<Rightarrow> nat \<Rightarrow> int \<times> int \<Rightarrow> nat \<times> nat" where
  "runThrough b x y who d =
     (case d of (dx, dy) \<Rightarrow>
        case scanRun b x y dx dy who [1 .. 4] 0 of (forward, openForward) \<Rightarrow>
        case scanRun b x y (- dx) (- dy) who [1 .. 4] 0 of (backward, openBackward) \<Rightarrow>
          (forward + backward + 1,
           (if openForward then 1 else 0) + (if openBackward then 1 else 0)))"

text \<open>The weight added for the mover's own run (lines 334-337 of the source).\<close>

definition attackWeight :: "nat \<Rightarrow> nat \<Rightarrow> rat" where
  "attackWeight tot opn =
     (if tot \<ge> 5 then FIVE
      else if tot = 4 then
        (if opn = 2 then OPEN_FOUR else (if opn = 1 then HALF_OPEN_FOUR else 0))
      else if tot = 3 then
        (if opn = 2 then OPEN_THREE else (if opn = 1 then HALF_OPEN_THREE else 0))
      else if tot = 2 then
        (if opn = 2 then OPEN_TWO else (if opn = 1 then HALF_OPEN_TWO else 0))
      else 0)"

text \<open>The blocking value added for the opponent's run (lines 360-362 of the source).\<close>

definition blockValue :: "nat \<Rightarrow> nat \<Rightarrow> rat" where
  "blockValue tot opn =
     (if tot \<ge> 5 then FIVE * (9 / 10)
      else if tot = 4 then (if opn \<ge> 1 then HALF_OPEN_FOUR else 0) * (9 / 10)
      else if tot = 3 then
        (if opn = 2 then OPEN_THREE else (if opn = 1 then HALF_OPEN_THREE else 0)) * (9 / 10)
      else 0)"

definition offensiveTerm :: "board \<Rightarrow> int \<Rightarrow> int \<Rightarrow> nat \<Rightarrow> int \<times> int \<Rightarrow> rat" where
  "offensiveTerm b x y player d =
     (case runThrough b x y player d of (myTotal, myOpen) \<Rightarrow> attackWeight myTotal myOpen)"

definition defensiveTerm :: "board \<Rightarrow> int \<Rightarrow> int \<Rightarrow> nat \<Rightarrow> int \<times> int \<Rightarrow> rat" where
  "defensiveTerm b x y player d =
     (case runThrough b x y (opponent player) d of
        (oppTotal, oppOpen) \<Rightarrow> blockValue oppTotal oppOpen)"

definition centerBonus :: "int \<Rightarrow> int \<Rightarrow> rat" where
  "centerBonus x y = of_int (max 0 (7 - (\<bar>x - CENTER\<bar> + \<bar>y - CENTER\<bar>)))"

definition scoreMoveQuick :: "board \<Rightarrow> int \<Rightarrow> int \<Rightarrow> nat \<Rightarrow> rat" where
  "scoreMoveQuick b x y player =
     foldl (\<lambda>score d. score + offensiveTerm b x y player d + defensiveTerm b x y player d)
           0 DIRECTIONS
     + centerBonus x y"

subsection \<open>Terminal detection\<close>

text \<open>The inner loop of \<open>checkWin\<close>: \<open>for (k = 1; k < 5; k++)\<close>, leaving at the first miss.\<close>

fun countAhead :: "board \<Rightarrow> nat \<Rightarrow> int \<Rightarrow> int \<Rightarrow> int \<Rightarrow> int \<Rightarrow> int list \<Rightarrow> nat \<Rightarrow> nat" where
  "countAhead b player i j dx dy [] n = n"
| "countAhead b player i j dx dy (k # ks) n =
     (let ni = i + dx * k; nj = j + dy * k in
      if inBounds ni nj \<and> bget b ni nj = player then countAhead b player i j dx dy ks (n + 1)
      else n)"

definition checkWin :: "board \<Rightarrow> nat \<Rightarrow> bool" where
  "checkWin b player \<longleftrightarrow>
     list_ex (\<lambda>(i, j). bget b i j = player \<and>
                list_ex (\<lambda>(dx, dy). countAhead b player i j dx dy [1 .. 4] 1 \<ge> 5) DIRECTIONS)
             ALL_CELLS"

definition isBoardFull :: "board \<Rightarrow> bool" where
  "isBoardFull b \<longleftrightarrow> \<not> list_ex (\<lambda>(i, j). bget b i j = EMPTY) ALL_CELLS"

subsection \<open>Position evaluation\<close>

text \<open>
  The \<open>while\<close> loop of \<open>evaluateBoard\<close> that walks along a run; it returns the count and
  the cell one past the last stone.
\<close>

partial_function (option) countRun ::
  "board \<Rightarrow> nat \<Rightarrow> int \<Rightarrow> int \<Rightarrow> int \<Rightarrow> int \<Rightarrow> nat \<Rightarrow> (nat \<times> int \<times> int) option" where
  "countRun b stone ci cj dx dy n =
     (if inBounds ci cj \<and> bget b ci cj = stone then countRun b stone (ci + dx) (cj + dy) dx dy (n + 1)
      else Some (n, ci, cj))"

declare countRun.simps [code]

definition runScore :: "nat \<Rightarrow> nat \<Rightarrow> rat" where
  "runScore n openEnds =
     (if n = 4 then (if openEnds = 2 then OPEN_FOUR else HALF_OPEN_FOUR)
      else if n = 3 then (if openEnds = 2 then OPEN_THREE else HALF_OPEN_THREE)
      else if n = 2 then (if openEnds = 2 then OPEN_TWO else HALF_OPEN_TWO)
      else if n = 1 then (if openEnds = 2 then OPEN_ONE else 0)
      else 0)"

text \<open>The body of the innermost loop of \<open>evaluateBoard\<close>, on the pair (myScore, oppScore).\<close>

definition evalRunAt ::
  "board \<Rightarrow> nat \<Rightarrow> int \<times> int \<Rightarrow> cell \<Rightarrow> rat \<times> rat \<Rightarrow> (rat \<times> rat) option" where
  "evalRunAt b player d c acc =
     (case d of (dx, dy) \<Rightarrow> case c of (i, j) \<Rightarrow> case acc of (myScore, oppScore) \<Rightarrow>
        let pi = i - dx; pj = j - dy in
        if inBounds pi pj \<and> bget b pi pj = bget b i j \<and> bget b i j \<noteq> EMPTY then Some (myScore, oppScore)
        else if bget b i j = EMPTY then Some (myScore, oppScore)
        else
          let stone = bget b i j in
          case countRun b stone i j dx dy 0 of
            None \<Rightarrow> None
          | Some (n, ci, cj) \<Rightarrow>
              if n \<ge> 5 then
                (if stone = player then Some (myScore + FIVE, oppScore)
                 else Some (myScore, oppScore + FIVE))
              else
                let openBefore = (inBounds (i - dx) (j - dy) \<and> bget b (i - dx) (j - dy) = EMPTY);
                    openAfter = (inBounds ci cj \<and> bget b ci cj = EMPTY);
                    openEnds = (if openBefore then 1 else 0) + (if openAfter then 1 else (0::nat))
                in if openEnds = 0 then Some (myScore, oppScore)
                   else
                     let score = runScore n openEnds in
                     if stone = player then Some (myScore + score, oppScore)
                     else Some (myScore, oppScore + score))"

fun foldOption :: "('a \<Rightarrow> 's \<Rightarrow> 's option) \<Rightarrow> 'a list \<Rightarrow> 's \<Rightarrow> 's option" where
  "foldOption f [] s = Some s"
| "foldOption f (x # xs) s = (case f x s of None \<Rightarrow> None | Some s' \<Rightarrow> foldOption f xs s')"

definition evaluateBoard :: "board \<Rightarrow> nat \<Rightarrow> rat option" where
  "evaluateBoard b player =
     (case foldOption (\<lambda>d acc. foldOption (\<lambda>c acc. evalRunAt b player d c acc) ALL_CELLS acc)
             DIRECTIONS (0, 0) of
        None \<Rightarrow> None
      | Some (myScore, oppScore) \<Rightarrow>
          let myScore' = foldl (\<lambda>s (i, j). if bget b i j = player then s + centerBonus i j else s)
                               myScore ALL_CELLS
          in Some (num_sub myScore' (num_mul oppScore lit_1_1)))"

text \<open>The body of the window loop of \<open>evaluateBoardAdvanced\<close>.\<close>

definition windowTerm :: "nat \<Rightarrow> rat" where
  "windowTerm n =
     (if n = 5 then FIVE else if n = 4 then HALF_OPEN_FOUR
      else if n = 3 then HALF_OPEN_THREE * 2 else if n = 2 then HALF_OPEN_TWO else 0)"

definition evalWindowAt :: "board \<Rightarrow> nat \<Rightarrow> int \<times> int \<Rightarrow> cell \<Rightarrow> rat \<times> rat \<Rightarrow> rat \<times> rat" where
  "evalWindowAt b player d c acc =
     (case d of (dx, dy) \<Rightarrow> case c of (i, j) \<Rightarrow> case acc of (myScore, oppScore) \<Rightarrow>
        if \<not> inBounds (i + dx * 4) (j + dy * 4) then (myScore, oppScore)
        else
          let opp = opponent player;
              window = map (\<lambda>k. bget b (i + dx * k) (j + dy * k)) [0 .. 4];
              myCount = length (filter (\<lambda>v. v = player) window);
              oppCount = length (filter (\<lambda>v. v \<noteq> player \<and> v = opp) window);
              myScore' = (if myCount > 0 \<and> oppCount = 0 then myScore + windowTerm myCount
                          else myScore);
              oppScore' = (if oppCount > 0 \<and> myCount = 0 then oppScore + windowTerm oppCount
                           else oppScore)
          in (myScore', oppScore'))"

definition evaluateBoardAdvanced :: "board \<Rightarrow> nat \<Rightarrow> rat option" where
  "evaluateBoardAdvanced b player =
     (case foldl (\<lambda>acc d. foldl (\<lambda>acc c. evalWindowAt b player d c acc) acc ALL_CELLS)
             (0, 0) DIRECTIONS of
        (myScore, oppScore) \<Rightarrow>
          case evaluateBoard b player of
            None \<Rightarrow> None
          | Some basicScore \<Rightarrow>
              Some (num_add basicScore
                      (num_mul (num_sub myScore (num_mul oppScore lit_1_1)) lit_0_5)))"

subsection \<open>The search engine\<close>

text \<open>
  The fields of a \<open>MinimaxEngine\<close> object, together with the two sources of values the
  engine reads from outside: \<open>Date.now()\<close> is the next value of \<open>clock\<close> and
  \<open>Math.random()\<close> the next value of \<open>rnd\<close>; both are arbitrary functions. The transposition
  table of the source is only ever cleared, and is left out.
\<close>

record ai_state =
  nodesSearched :: nat
  startTime :: int
  timeLimit :: rat
  timedOut :: bool
  useAdvancedEval :: bool
  clock :: "nat \<Rightarrow> int"
  ticks :: nat
  rnd :: "nat \<Rightarrow> rat"
  draws :: nat

definition dateNow :: "ai_state \<Rightarrow> int \<times> ai_state" where
  "dateNow st = (clock st (ticks st), st\<lparr> ticks := ticks st + 1 \<rparr>)"

definition mathRandom :: "ai_state \<Rightarrow> rat \<times> ai_state" where
  "mathRandom st = (rnd st (draws st), st\<lparr> draws := draws st + 1 \<rparr>)"

definition newMinimaxEngine :: "ai_state \<Rightarrow> ai_state" where
  "newMinimaxEngine st = st\<lparr> nodesSearched := 0, startTime := 0, timeLimit := 0,
                             timedOut := False, useAdvancedEval := False \<rparr>"

type_synonym scored = "cell \<times> rat"

text \<open>\<open>Array.prototype.sort\<close> is stable; so is \<open>sort_key\<close>.\<close>

definition getOrderedMoves :: "board \<Rightarrow> nat \<Rightarrow> int \<Rightarrow> scored list" where
  "getOrderedMoves b player radius =
     sort_key (\<lambda>m. - snd m)
       (map (\<lambda>(x, y). ((x, y), scoreMoveQuick b x y player)) (generateCandidates b radius))"

definition staticEval :: "ai_state \<Rightarrow> board \<Rightarrow> nat \<Rightarrow> rat option" where
  "staticEval st b player =
     (if useAdvancedEval st then evaluateBoardAdvanced b player else evaluateBoard b player)"

text \<open>The time check at the head of \<open>alphabeta\<close>; the result says whether the node aborts.\<close>

definition timeCheck :: "ai_state \<Rightarrow> bool \<times> ai_state" where
  "timeCheck st =
     (if timeLimit st > 0 \<and> nodesSearched st mod 1000 = 0 then
        (case dateNow st of (t, st') \<Rightarrow>
           if of_int (t - startTime st') > timeLimit st' then (True, st'\<lparr> timedOut := True \<rparr>)
           else (False, st'))
      else (False, st))"

definition maxMovesAt :: "int \<Rightarrow> nat" where
  "maxMovesAt depth = (if depth \<le> 1 then 10 else (if depth \<le> 2 then 15 else 20))"

text \<open>
  The part of \<open>alphabeta\<close> before its loops: the node count and time check, the terminal
  checks and the leaf evaluation. \<open>Inl\<close> is the value the node returns without searching
  (\<open>None\<close> inside it when the evaluator does not return); \<open>Inr\<close> carries the state and the
  moves to search.
\<close>

definition nodeEntry ::
  "ai_state \<Rightarrow> board \<Rightarrow> int \<Rightarrow> nat \<Rightarrow> nat \<Rightarrow> (rat \<times> board \<times> ai_state) option + ai_state \<times> scored list" where
  "nodeEntry st b depth maximizingPlayer curPlayer =
     (case timeCheck (st\<lparr> nodesSearched := nodesSearched st + 1 \<rparr>) of (expired, st1) \<Rightarrow>
        if expired then Inl (Some (0, b, st1))
        else if timedOut st1 then Inl (Some (0, b, st1))
        else if checkWin b maximizingPlayer then Inl (Some (WIN_SCORE + of_int depth, b, st1))
        else if checkWin b (opponent maximizingPlayer) then
          Inl (Some (- (WIN_SCORE + of_int depth), b, st1))
        else if depth = 0 \<or> isBoardFull b then
          Inl (map_option (\<lambda>v. (v, b, st1)) (staticEval st1 b maximizingPlayer))
        else
          let moves = getOrderedMoves b curPlayer 2;
              movesToSearch = take (maxMovesAt depth) moves
          in if length movesToSearch = 0 then
               Inl (map_option (\<lambda>v. (v, b, st1)) (staticEval st1 b maximizingPlayer))
             else Inr (st1, movesToSearch))"

text \<open>
  \<open>alphabeta\<close> and its two loops. The board is mutated in place by the source, so it is
  passed in and returned. The first argument bounds the nesting of recursive calls;
  running out of it is \<open>None\<close>.
\<close>

function alphabeta ::
    "nat \<Rightarrow> ai_state \<Rightarrow> board \<Rightarrow> int \<Rightarrow> rat \<Rightarrow> rat \<Rightarrow> nat \<Rightarrow> nat \<Rightarrow> bool \<Rightarrow> (rat \<times> board \<times> ai_state) option"
  and searchMax ::
    "nat \<Rightarrow> ai_state \<Rightarrow> board \<Rightarrow> int \<Rightarrow> rat \<Rightarrow> rat \<Rightarrow> nat \<Rightarrow> nat \<Rightarrow> scored list \<Rightarrow> rat \<Rightarrow> (rat \<times> board \<times> ai_state) option"
  and searchMin ::
    "nat \<Rightarrow> ai_state \<Rightarrow> board \<Rightarrow> int \<Rightarrow> rat \<Rightarrow> rat \<Rightarrow> nat \<Rightarrow> nat \<Rightarrow> scored list \<Rightarrow> rat \<Rightarrow> (rat \<times> board \<times> ai_state) option"
where
  "alphabeta 0 st b depth alpha beta maximizingPlayer curPlayer isMaximizing = None"
| "alphabeta (Suc fuel) st b depth alpha beta maximizingPlayer curPlayer isMaximizing =
     (case nodeEntry st b depth maximizingPlayer curPlayer of
        Inl r \<Rightarrow> r
      | Inr (st1, movesToSearch) \<Rightarrow>
          if isMaximizing then
            searchMax fuel st1 b depth alpha beta maximizingPlayer curPlayer movesToSearch (- INF_N)
          else
            searchMin fuel st1 b depth alpha beta maximizingPlayer curPlayer movesToSearch INF_N)"
| "searchMax fuel st b depth alpha beta maximizingPlayer curPlayer [] v = Some (v, b, st)"
| "searchMax fuel st b depth alpha beta maximizingPlayer curPlayer (m # ms) v =
     (case alphabeta fuel st (bset b (fst (fst m)) (snd (fst m)) curPlayer) (depth - 1) alpha beta
             maximizingPlayer (opponent curPlayer) False of
        None \<Rightarrow> None
      | Some (score, b1, st1) \<Rightarrow>
          let b2 = bset b1 (fst (fst m)) (snd (fst m)) EMPTY in
          if timedOut st1 then Some (v, b2, st1)
          else if max alpha (max v score) \<ge> beta then Some (max v score, b2, st1)
          else searchMax fuel st1 b2 depth (max alpha (max v score)) beta
                 maximizingPlayer curPlayer ms (max v score))"
| "searchMin fuel st b depth alpha beta maximizingPlayer curPlayer [] v = Some (v, b, st)"
| "searchMin fuel st b depth alpha beta maximizingPlayer curPlayer (m # ms) v =
     (case alphabeta fuel st (bset b (fst (fst m)) (snd (fst m)) curPlayer) (depth - 1) alpha beta
             maximizingPlayer (opponent curPlayer) True of
        None \<Rightarrow> None
      | Some (score, b1, st1) \<Rightarrow>
          let b2 = bset b1 (fst (fst m)) (snd (fst m)) EMPTY in
          if timedOut st1 then Some (v, b2, st1)
          else if alpha \<ge> min beta (min v score) then Some (min v score, b2, st1)
          else searchMin fuel st1 b2 depth alpha (min beta (min v score))
                 maximizingPlayer curPlayer ms (min v score))"
  by pat_completeness auto
termination
  by (relation "inv_image (less_than <*lex*> less_than <*lex*> less_than)
       (\<lambda>x. case x of
          Inl a \<Rightarrow> (fst a, 0::nat, 0::nat)
        | Inr (Inl a) \<Rightarrow> (fst a, 1, length (fst (snd (snd (snd (snd (snd (snd (snd (snd a))))))))))
        | Inr (Inr a) \<Rightarrow> (fst a, 1, length (fst (snd (snd (snd (snd (snd (snd (snd (snd a)))))))))))")
     auto

text \<open>
  The probe loops of the drivers: place a stone of \<open>who\<close> on each move in turn, test
  \<open>checkWin\<close> for \<open>who\<close>, take the stone off again, and return the first move that wins.
\<close>

fun probeWin :: "board \<Rightarrow> nat \<Rightarrow> cell list \<Rightarrow> cell option \<times> board" where
  "probeWin b who [] = (None, b)"
| "probeWin b who (c # cs) =
     (let b1 = bset b (fst c) (snd c) who in
      if checkWin b1 who then (Some c, bset b1 (fst c) (snd c) EMPTY)
      else probeWin (bset b1 (fst c) (snd c) EMPTY) who cs)"

text \<open>
  The loop over the root moves, the same in \<open>findBestMove\<close> and in each round of
  \<open>findBestMoveIterative\<close>. It returns the best move and score, the board and the state.
\<close>

fun searchRoot ::
  "nat \<Rightarrow> ai_state \<Rightarrow> board \<Rightarrow> nat \<Rightarrow> int \<Rightarrow> scored list \<Rightarrow> scored \<Rightarrow> rat \<Rightarrow>
     (scored \<times> rat \<times> board \<times> ai_state) option" where
  "searchRoot fuel st b player depth [] bestMove bestScore = Some (bestMove, bestScore, b, st)"
| "searchRoot fuel st b player depth (m # ms) bestMove bestScore =
     (case alphabeta fuel st (bset b (fst (fst m)) (snd (fst m)) player) (depth - 1) (- INF_N) INF_N
             player (opponent player) False of
        None \<Rightarrow> None
      | Some (score, b1, st1) \<Rightarrow>
          let b2 = bset b1 (fst (fst m)) (snd (fst m)) EMPTY in
          if timedOut st1 then Some (bestMove, bestScore, b2, st1)
          else if score > bestScore then searchRoot fuel st1 b2 player depth ms m score
          else searchRoot fuel st1 b2 player depth ms bestMove bestScore)"

text \<open>
  The same loop without the two variables that remember the best move: the root moves
  that were scored before a timeout, in order, each with the score \<open>alphabeta\<close> returned
  for it, and the board and the state after the loop.
\<close>

fun rootScores ::
  "nat \<Rightarrow> ai_state \<Rightarrow> board \<Rightarrow> nat \<Rightarrow> int \<Rightarrow> scored list \<Rightarrow>
     ((scored \<times> rat) list \<times> board \<times> ai_state) option" where
  "rootScores fuel st b player depth [] = Some ([], b, st)"
| "rootScores fuel st b player depth (m # ms) =
     (case alphabeta fuel st (bset b (fst (fst m)) (snd (fst m)) player) (depth - 1) (- INF_N) INF_N
             player (opponent player) False of
        None \<Rightarrow> None
      | Some (score, b1, st1) \<Rightarrow>
          let b2 = bset b1 (fst (fst m)) (snd (fst m)) EMPTY in
          if timedOut st1 then Some ([], b2, st1)
          else map_option (\<lambda>(es, r). ((m, score) # es, r))
                 (rootScores fuel st1 b2 player depth ms))"

definition findBestMove ::
  "nat \<Rightarrow> ai_state \<Rightarrow> board \<Rightarrow> nat \<Rightarrow> int \<Rightarrow> rat \<Rightarrow> bool \<Rightarrow> (cell \<times> board \<times> ai_state) option" where
  "findBestMove fuel st b player depth timeLimitMs advancedEval =
     (case dateNow (st\<lparr> nodesSearched := 0 \<rparr>) of (t, st0) \<Rightarrow>
        let st1 = st0\<lparr> startTime := t, timeLimit := timeLimitMs, timedOut := False,
                       useAdvancedEval := advancedEval \<rparr>;
            moves = getOrderedMoves b player 2
        in if length moves = 0 then Some ((CENTER, CENTER), b, st1)
           else if length moves = 1 then Some (fst (moves ! 0), b, st1)
           else
             case probeWin b player (map fst moves) of
               (Some c, b1) \<Rightarrow> Some (c, b1, st1)
             | (None, b1) \<Rightarrow>
                 case probeWin b1 (opponent player) (map fst moves) of
                   (Some c, b2) \<Rightarrow> Some (c, b2, st1)
                 | (None, b2) \<Rightarrow>
                     let topMoves = take (min (length moves) 20) moves in
                     case searchRoot fuel st1 b2 player depth topMoves (topMoves ! 0) (- INF_N) of
                       None \<Rightarrow> None
                     | Some (bestMove, bestScore, b3, st2) \<Rightarrow> Some (fst bestMove, b3, st2))"

text \<open>The rounds of iterative deepening, \<open>for (depth = 1; depth <= maxDepth; depth++)\<close>.\<close>

fun deepen ::
  "nat \<Rightarrow> ai_state \<Rightarrow> board \<Rightarrow> nat \<Rightarrow> scored list \<Rightarrow> rat \<Rightarrow> int list \<Rightarrow> cell option \<Rightarrow>
     (cell option \<times> board \<times> ai_state) option" where
  "deepen fuel st b player moves timeLimitMs [] bestMove = Some (bestMove, b, st)"
| "deepen fuel st b player moves timeLimitMs (depth # ds) bestMove =
     (let st0 = st\<lparr> nodesSearched := 0, timedOut := False \<rparr>;
          topMoves = take 20 moves
      in case searchRoot fuel st0 b player depth topMoves (topMoves ! 0) (- INF_N) of
           None \<Rightarrow> None
         | Some (depthBestMove, depthBestScore, b1, st1) \<Rightarrow>
             let bestMove' = (if \<not> timedOut st1 then Some (fst depthBestMove) else bestMove) in
             if depthBestScore \<ge> WIN_SCORE then Some (bestMove', b1, st1)
             else
               case dateNow st1 of (t, st2) \<Rightarrow>
                 if of_int (t - startTime st2) > num_mul timeLimitMs lit_0_7
                 then Some (bestMove', b1, st2)
                 else deepen fuel st2 b1 player moves timeLimitMs ds bestMove')"

definition findBestMoveIterative ::
  "nat \<Rightarrow> ai_state \<Rightarrow> board \<Rightarrow> nat \<Rightarrow> int \<Rightarrow> rat \<Rightarrow> bool \<Rightarrow> (cell \<times> board \<times> ai_state) option" where
  "findBestMoveIterative fuel st b player maxDepth timeLimitMs advancedEval =
     (case dateNow st of (t, st0) \<Rightarrow>
        let st1 = st0\<lparr> startTime := t, timeLimit := timeLimitMs, timedOut := False,
                       useAdvancedEval := advancedEval \<rparr>;
            moves = getOrderedMoves b player 2
        in if length moves = 0 then Some ((CENTER, CENTER), b, st1)
           else
             case probeWin b player (map fst moves) of
               (Some c, b1) \<Rightarrow> Some (c, b1, st1)
             | (None, b1) \<Rightarrow>
                 case probeWin b1 (opponent player) (map fst moves) of
                   (Some c, b2) \<Rightarrow> Some (c, b2, st1)
                 | (None, b2) \<Rightarrow>
                     case deepen fuel st1 b2 player moves timeLimitMs [1 .. maxDepth] None of
                       None \<Rightarrow> None
                     | Some (bestMove, b3, st2) \<Rightarrow>
                         Some (case bestMove of Some c \<Rightarrow> c | None \<Rightarrow> fst (moves ! 0), b3, st2))"

subsection \<open>Opening book and difficulty strategies\<close>

text \<open>\<open>xs[Math.floor(Math.random() * xs.length)]\<close>.\<close>

definition pickRandom :: "ai_state \<Rightarrow> cell list \<Rightarrow> cell \<times> ai_state" where
  "pickRandom st xs =
     (case mathRandom st of (r, st') \<Rightarrow> (xs ! nat \<lfloor>r * of_nat (length xs)\<rfloor>, st'))"

text \<open>
  An entry of \<open>OPENING_BOOK\<close>: its condition and the three optional properties \<open>move\<close>,
  \<open>moves\<close> and \<open>generator\<close> that \<open>masterMove\<close> tests in this order.
\<close>

record book_entry =
  condition :: "board \<Rightarrow> bool"
  entry_move :: "cell option"
  entry_moves :: "cell list option"
  generator :: "(board \<Rightarrow> nat \<Rightarrow> ai_state \<Rightarrow> cell option \<times> ai_state) option"

definition knightMoves :: "cell list" where
  "knightMoves =
     [(CENTER - 2, CENTER - 1), (CENTER - 2, CENTER + 1), (CENTER - 1, CENTER - 2),
      (CENTER - 1, CENTER + 2), (CENTER + 1, CENTER - 2), (CENTER + 1, CENTER + 2),
      (CENTER + 2, CENTER - 1), (CENTER + 2, CENTER + 1)]"

definition knightGenerator :: "board \<Rightarrow> nat \<Rightarrow> ai_state \<Rightarrow> cell option \<times> ai_state" where
  "knightGenerator b player st =
     (let valid = filter (\<lambda>(x, y). x \<ge> 0 \<and> x < BOARD_SIZE \<and> y \<ge> 0 \<and> y < BOARD_SIZE \<and>
                                     bget b x y = EMPTY) knightMoves
      in if length valid > 0 then (case pickRandom st valid of (m, st') \<Rightarrow> (Some m, st'))
         else (None, st))"

definition OPENING_BOOK :: "book_entry list" where
  "OPENING_BOOK =
     [\<lparr> condition = (\<lambda>b. countStones b = 0),
         entry_move = Some (CENTER, CENTER), entry_moves = None, generator = None \<rparr>,
      \<lparr> condition = (\<lambda>b. countStones b = 1 \<and> bget b CENTER CENTER \<noteq> EMPTY),
         entry_move = None,
         entry_moves = Some [(CENTER - 1, CENTER - 1), (CENTER - 1, CENTER + 1),
                             (CENTER + 1, CENTER - 1), (CENTER + 1, CENTER + 1)],
         generator = None \<rparr>,
      \<lparr> condition = (\<lambda>b. countStones b = 1 \<and> bget b CENTER CENTER = EMPTY),
         entry_move = Some (CENTER, CENTER), entry_moves = None, generator = None \<rparr>,
      \<lparr> condition = (\<lambda>b. countStones b = 2 \<and> bget b CENTER CENTER \<noteq> EMPTY),
         entry_move = None, entry_moves = None, generator = Some knightGenerator \<rparr>]"

text \<open>The loop over the book in \<open>masterMove\<close>; \<open>None\<close> when no entry yields a move.\<close>

fun consultBook :: "book_entry list \<Rightarrow> ai_state \<Rightarrow> board \<Rightarrow> nat \<Rightarrow> cell option \<times> ai_state" where
  "consultBook [] st b player = (None, st)"
| "consultBook (e # es) st b player =
     (if condition e b then
        (case entry_move e of
           Some m \<Rightarrow> (Some m, st)
         | None \<Rightarrow>
             (case (case entry_moves e of
                      Some ms \<Rightarrow>
                        (let valid = filter (\<lambda>(x, y). bget b x y = EMPTY) ms in
                         if length valid > 0 then
                           (case pickRandom st valid of (m, st') \<Rightarrow> (Some m, st'))
                         else (None, st))
                    | None \<Rightarrow> (None, st)) of
                (Some m, st1) \<Rightarrow> (Some m, st1)
              | (None, st1) \<Rightarrow>
                  (case generator e of
                     Some g \<Rightarrow>
                       (case g b player st1 of
                          (Some m, st2) \<Rightarrow> (Some m, st2)
                        | (None, st2) \<Rightarrow> consultBook es st2 b player)
                   | None \<Rightarrow> consultBook es st1 b player)))
      else consultBook es st b player)"

text \<open>The blocking loop of \<open>easyMove\<close>: a found block is taken when the next random draw is below 0.7.\<close>

fun easyBlock :: "ai_state \<Rightarrow> board \<Rightarrow> nat \<Rightarrow> cell list \<Rightarrow> cell option \<times> board \<times> ai_state" where
  "easyBlock st b opp [] = (None, b, st)"
| "easyBlock st b opp (c # cs) =
     (let b1 = bset b (fst c) (snd c) opp in
      if checkWin b1 opp then
        (let b2 = bset b1 (fst c) (snd c) EMPTY in
         case mathRandom st of (r, st') \<Rightarrow>
           if r < 7 / 10 then (Some c, b2, st')
           else easyBlock st' (bset b2 (fst c) (snd c) EMPTY) opp cs)
      else easyBlock st (bset b1 (fst c) (snd c) EMPTY) opp cs)"

fun pickWeighted :: "rat \<Rightarrow> (cell \<times> rat) list \<Rightarrow> cell option" where
  "pickWeighted rand [] = None"
| "pickWeighted rand (cw # cws) =
     (let rand' = rand - snd cw in
      if rand' \<le> 0 then Some (fst cw) else pickWeighted rand' cws)"

definition easyMove :: "ai_state \<Rightarrow> board \<Rightarrow> nat \<Rightarrow> cell \<times> board \<times> ai_state" where
  "easyMove st b player =
     (let candidates = generateCandidates b 1 in
      if length candidates = 0 then ((CENTER, CENTER), b, st)
      else
        case probeWin b player candidates of
          (Some c, b1) \<Rightarrow> (c, b1, st)
        | (None, b1) \<Rightarrow>
            case easyBlock st b1 (opponent player) candidates of
              (Some c, b2, st1) \<Rightarrow> (c, b2, st1)
            | (None, b2, st1) \<Rightarrow>
                let weighted = map (\<lambda>(x, y). ((x, y),
                                 of_int (max 1 (15 - (\<bar>x - CENTER\<bar> + \<bar>y - CENTER\<bar>))))) candidates;
                    totalWeight = foldl (\<lambda>sum cw. sum + snd cw) 0 weighted
                in case mathRandom st1 of (r, st2) \<Rightarrow>
                     (case pickWeighted (r * totalWeight) weighted of
                        Some c \<Rightarrow> (c, b2, st2)
                      | None \<Rightarrow> (fst (weighted ! 0), b2, st2)))"

definition mediumMove :: "nat \<Rightarrow> ai_state \<Rightarrow> board \<Rightarrow> nat \<Rightarrow> (cell \<times> board \<times> ai_state) option" where
  "mediumMove fuel st b player = findBestMove fuel (newMinimaxEngine st) b player 2 1000 False"

definition hardMove :: "nat \<Rightarrow> ai_state \<Rightarrow> board \<Rightarrow> nat \<Rightarrow> (cell \<times> board \<times> ai_state) option" where
  "hardMove fuel st b player = findBestMove fuel (newMinimaxEngine st) b player 4 3000 True"

definition masterMove :: "nat \<Rightarrow> ai_state \<Rightarrow> board \<Rightarrow> nat \<Rightarrow> (cell \<times> board \<times> ai_state) option" where
  "masterMove fuel st b player =
     (case consultBook OPENING_BOOK st b player of
        (Some m, st1) \<Rightarrow> Some (m, b, st1)
      | (None, st1) \<Rightarrow> findBestMoveIterative fuel (newMinimaxEngine st1) b player 6 2000 True)"

text \<open>
  The class \<open>GomokuAI\<close> has the single field \<open>difficulty\<close>, a string. The board test
  at the head of \<open>getMove\<close> (\<open>!board || !Array.isArray(board) || board.length === 0\<close>) is,
  for a board that is an array, the test for the empty array.
\<close>

definition getMove ::
  "string \<Rightarrow> nat \<Rightarrow> ai_state \<Rightarrow> board \<Rightarrow> nat \<Rightarrow> (cell \<times> board \<times> ai_state) option" where
  "getMove difficulty fuel st b player =
     (if length b = 0 then Some ((CENTER, CENTER), b, st)
      else if difficulty = ''easy'' then Some (easyMove st b player)
      else if difficulty = ''medium'' then mediumMove fuel st b player
      else if difficulty = ''hard'' then hardMove fuel st b player
      else if difficulty = ''master'' then masterMove fuel st b player
      else mediumMove fuel st b player)"

definition setDifficulty :: "string \<Rightarrow> string \<Rightarrow> string" where
  "setDifficulty difficulty level =
     (if level \<in> set [''easy'', ''medium'', ''hard'', ''master''] then level else difficulty)"

subsection \<open>Well-formed boards\<close>

text \<open>
  A board of ai.js is well formed when it has \<open>BOARD_SIZE\<close> rows of \<open>BOARD_SIZE\<close> cells.
  \<open>emptyCount\<close> is the number of empty cells, the measure that bounds how deep a search
  can nest.
\<close>

definition wf_board :: "board \<Rightarrow> bool" where
  "wf_board b \<longleftrightarrow> board_ok BOARD_SIZE b"

definition emptyCount :: "board \<Rightarrow> nat" where
  "emptyCount b = length (filter (\<lambda>(i, j). bget b i j = EMPTY) ALL_CELLS)"

subsection \<open>Concrete positions\<close>

text \<open>
  Positions and states used to evaluate the definitions: the empty board, three white
  stones in row 7, six black stones in row 0, and an engine state with a clock that
  advances by one per reading.
\<close>

definition emptyBoard :: board where
  "emptyBoard = replicate 15 (replicate 15 EMPTY)"

definition threeBoard :: board where
  "threeBoard = bset (bset (bset emptyBoard 7 5 WHITE) 7 6 WHITE) 7 7 WHITE"

definition sixBoard :: board where
  "sixBoard = bset (bset (bset (bset (bset (bset emptyBoard 0 0 BLACK) 0 1 BLACK) 0 2 BLACK)
                 0 3 BLACK) 0 4 BLACK) 0 5 BLACK"

definition idleState :: ai_state where
  "idleState = \<lparr> nodesSearched = 0, startTime = 0, timeLimit = 0, timedOut = False,
                  useAdvancedEval = False, clock = (\<lambda>n. int n), ticks = 0,
                  rnd = (\<lambda>n. 0), draws = 0 \<rparr>"

definition sixEngine :: engine where
  "sixEngine = \<lparr> size_e = 15, board = sixBoard, currentPlayer = 2, moveHistory = [],
                  gameOver = False, winner = 0, winLine = None \<rparr>"

subsection \<open>Predicates used in the statements and proofs\<close>

text \<open>
  The key of a cell in \<open>visited\<close>; what it means for a cell to be empty and on the board;
  and the invariant of the candidate scan: every candidate is an empty cell, and \<open>visited\<close>
  holds exactly the keys of the candidates.
\<close>

definition keyOf :: "cell \<Rightarrow> int" where
  "keyOf c = fst c * BOARD_SIZE + snd c"

definition emptyAt :: "board \<Rightarrow> cell \<Rightarrow> bool" where
  "emptyAt b c \<longleftrightarrow> inBounds (fst c) (snd c) \<and> bget b (fst c) (snd c) = EMPTY"

definition candInv :: "board \<Rightarrow> cell list \<times> int list \<Rightarrow> bool" where
  "candInv b st \<longleftrightarrow> (\<forall>c \<in> set (fst st). emptyAt b c) \<and> set (snd st) = keyOf ` set (fst st)"

text \<open>
  The bodies of the two nested loops of \<open>generateCandidates\<close>, named; and the cells
  within Chebyshev distance \<open>r\<close> of a stone among \<open>xs\<close>.
\<close>

definition offStep :: "board \<Rightarrow> int \<Rightarrow> int \<Rightarrow> cell list \<times> int list \<Rightarrow> int \<times> int \<Rightarrow> cell list \<times> int list" where
  "offStep b i j = (\<lambda>st (di, dj). visitCell b (i + di) (j + dj) st)"

definition stoneStep ::
  "board \<Rightarrow> int \<Rightarrow> (cell list \<times> int list) \<times> bool \<Rightarrow> cell \<Rightarrow> (cell list \<times> int list) \<times> bool" where
  "stoneStep b r = (\<lambda>(st, hasStone) (i, j).
              if bget b i j \<noteq> EMPTY then (scanAround b r i j st, True)
              else (st, hasStone))"

definition nearStone :: "board \<Rightarrow> int \<Rightarrow> cell list \<Rightarrow> cell \<Rightarrow> bool" where
  "nearStone b r xs c \<longleftrightarrow>
     (\<exists>s \<in> set xs. bget b (fst s) (snd s) \<noteq> EMPTY \<and>
        \<bar>fst c - fst s\<bar> \<le> r \<and> \<bar>snd c - snd s\<bar> \<le> r)"

text \<open>
  A call returns, and returns the board it was given.
\<close>

definition keeps :: "board \<Rightarrow> ('a \<times> board \<times> ai_state) option \<Rightarrow> bool" where
  "keeps b r \<longleftrightarrow> (\<exists>v st'. r = Some (v, b, st'))"

text \<open>
  What the probe loop, the root loop and the drivers deliver: the board they were given,
  and a move from a given set.
\<close>

definition probeOk :: "board \<Rightarrow> nat \<Rightarrow> cell list \<Rightarrow> cell option \<times> board \<Rightarrow> bool" where
  "probeOk b who cs r \<longleftrightarrow> snd r = b \<and>
     (case fst r of
        None \<Rightarrow> \<forall>c \<in> set cs. \<not> checkWin (bset b (fst c) (snd c) who) who
      | Some c \<Rightarrow> c \<in> set cs \<and> checkWin (bset b (fst c) (snd c) who) who)"

definition rootOk :: "board \<Rightarrow> scored set \<Rightarrow> (scored \<times> rat \<times> board \<times> ai_state) option \<Rightarrow> bool" where
  "rootOk b S r \<longleftrightarrow> (case r of None \<Rightarrow> False | Some (bm, bs, b', st') \<Rightarrow> b' = b \<and> bm \<in> S)"

definition resOk ::
  "board \<Rightarrow> 'a set \<Rightarrow> ('a \<times> board \<times> ai_state) option \<Rightarrow> bool" where
  "resOk b S r \<longleftrightarrow> (case r of None \<Rightarrow> False | Some (best, b', st') \<Rightarrow> b' = b \<and> best \<in> S)"

text \<open>
  Placing a stone of \<open>player\<close> on the cell makes \<open>checkWin\<close> true for \<open>player\<close>.
\<close>

definition winsAt :: "board \<Rightarrow> nat \<Rightarrow> cell \<Rightarrow> bool" where
  "winsAt b player c \<longleftrightarrow> checkWin (bset b (fst c) (snd c) player) player"

text \<open>
  The cells a driver may answer with: a candidate when there is one, the center otherwise;
  and a winning candidate whenever some candidate wins.
\<close>

definition answers :: "board \<Rightarrow> nat \<Rightarrow> int \<Rightarrow> cell set" where
  "answers b player r =
     {m. (if generateCandidates b r = [] then m = (CENTER, CENTER)
          else m \<in> set (generateCandidates b r)) \<and>
         ((\<exists>c \<in> set (generateCandidates b r). winsAt b player c) \<longrightarrow> winsAt b player m)}"

text \<open>
  Five cells in a line from (i, j) along (dx, dy), all on the board and all holding a
  stone of \<open>player\<close>.
\<close>

definition fiveAt :: "board \<Rightarrow> nat \<Rightarrow> int \<Rightarrow> int \<Rightarrow> int \<Rightarrow> int \<Rightarrow> bool" where
  "fiveAt b player i j dx dy \<longleftrightarrow>
     (\<forall>k \<in> {0 .. 4}. inBounds (i + dx * k) (j + dy * k) \<and> bget b (i + dx * k) (j + dy * k) = player)"

text \<open>
  Four black stones in row 7 with both ends open, and a fifth black stone one cell
  further left: black at (7, 4) and (7, 6) to (7, 9). A stone at (7, 10) makes exactly
  five; a stone at (7, 5) makes six. \<open>overEngine\<close> is a game on this board with black to
  move; the game engine addresses the cell (row, column) of ai.js as \<open>(x, y) = (column, row)\<close>.
\<close>

definition overBoard :: board where
  "overBoard = bset (bset (bset (bset (bset emptyBoard 7 4 BLACK) 7 6 BLACK) 7 7 BLACK)
                  7 8 BLACK) 7 9 BLACK"

definition overEngine :: engine where
  "overEngine = \<lparr> size_e = 15, board = overBoard, currentPlayer = 1, moveHistory = [],
                   gameOver = False, winner = 0, winLine = None \<rparr>"

text \<open>
  The best of a list of scored root moves, in the words of the description of the search:
  the move with the highest score, the earliest one among equals. \<open>init\<close> is the move and
  score the search starts from; it stays when no move scores above it.
\<close>

definition bestRoot :: "scored \<times> rat \<Rightarrow> (scored \<times> rat) list \<Rightarrow> scored \<times> rat" where
  "bestRoot init es =
     (case find (\<lambda>e. snd init < snd e \<and> list_all (\<lambda>e'. snd e' \<le> snd e) es) es of
        Some e \<Rightarrow> e
      | None \<Rightarrow> init)"

text \<open>
  The rounds of iterative deepening as a trace, following the description of the driver:
  for each depth that is run, the depth, whether its search completed without timing out,
  and the root moves it scored with their scores. A round starts from the first root move
  with the score \<open>-INF\<close>. The trace ends where the driver stops: at a round whose best
  score reaches \<open>WIN_SCORE\<close>, or when more than 70% of the budget has elapsed.
\<close>

definition roundBest :: "scored list \<Rightarrow> (scored \<times> rat) list \<Rightarrow> scored \<times> rat" where
  "roundBest moves es = bestRoot (take 20 moves ! 0, - INF_N) es"

fun rounds ::
  "nat \<Rightarrow> ai_state \<Rightarrow> board \<Rightarrow> nat \<Rightarrow> scored list \<Rightarrow> rat \<Rightarrow> int list \<Rightarrow>
     (int \<times> bool \<times> (scored \<times> rat) list) list" where
  "rounds fuel st b player moves timeLimitMs [] = []"
| "rounds fuel st b player moves timeLimitMs (depth # ds) =
     (case rootScores fuel (st\<lparr> nodesSearched := 0, timedOut := False \<rparr>) b player depth
             (take 20 moves) of
        None \<Rightarrow> []
      | Some (es, b1, st1) \<Rightarrow>
          (depth, \<not> timedOut st1, es) #
          (if snd (roundBest moves es) \<ge> WIN_SCORE then []
           else case dateNow st1 of (t, st2) \<Rightarrow>
             if of_int (t - startTime st2) > num_mul timeLimitMs lit_0_7 then []
             else rounds fuel st2 b1 player moves timeLimitMs ds))"

text \<open>The last round of a trace that completed: its depth and its scored root moves.\<close>

definition lastCompleted ::
  "(int \<times> bool \<times> (scored \<times> rat) list) list \<Rightarrow> (int \<times> (scored \<times> rat) list) option" where
  "lastCompleted rs =
     (case filter (\<lambda>r. fst (snd r)) rs of
        [] \<Rightarrow> None
      | c # cs \<Rightarrow> Some (fst (last (c # cs)), snd (snd (last (c # cs)))))"

text \<open>
  Black has four in row 0 and wins at (0, 4); white has a four in row 7 and a four in
  column 7 that both end at (7, 7).
\<close>

definition crossBoard :: board where
  "crossBoard = foldl (\<lambda>b (i, j, v). bset b i j v) emptyBoard
     [(0, 0, BLACK), (0, 1, BLACK), (0, 2, BLACK), (0, 3, BLACK),
      (7, 3, WHITE), (7, 4, WHITE), (7, 5, WHITE), (7, 6, WHITE),
      (8, 7, WHITE), (9, 7, WHITE), (10, 7, WHITE), (11, 7, WHITE)]"

text \<open>The engine state in which the rounds of \<open>findBestMoveIterative\<close> start.\<close>

definition iterativeStart :: "ai_state \<Rightarrow> rat \<Rightarrow> bool \<Rightarrow> ai_state" where
  "iterativeStart st timeLimitMs advancedEval =
     (case dateNow st of (t, st0) \<Rightarrow>
        st0\<lparr> startTime := t, timeLimit := timeLimitMs, timedOut := False,
             useAdvancedEval := advancedEval \<rparr>)"

text \<open>
  The trace of the rounds that \<open>findBestMoveIterative\<close> runs, and the move the driver
  is described to return from it: the best root move of the last round that completed,
  the first root candidate when no round completed.
\<close>

definition iterativeRounds ::
  "nat \<Rightarrow> ai_state \<Rightarrow> board \<Rightarrow> nat \<Rightarrow> int \<Rightarrow> rat \<Rightarrow> bool \<Rightarrow>
     (int \<times> bool \<times> (scored \<times> rat) list) list" where
  "iterativeRounds fuel st b player maxDepth timeLimitMs advancedEval =
     rounds fuel (iterativeStart st timeLimitMs advancedEval) b player
       (getOrderedMoves b player 2) timeLimitMs [1 .. maxDepth]"

definition deepestBest ::
  "scored list \<Rightarrow> (int \<times> bool \<times> (scored \<times> rat) list) list \<Rightarrow> cell" where
  "deepestBest moves rs =
     (case lastCompleted rs of
        Some c \<Rightarrow> fst (fst (roundBest moves (snd c)))
      | None \<Rightarrow> fst (moves ! 0))"

text \<open>
  The basic evaluator as the specification describes it, \<open>myScore - 1.1 * opponentScore\<close>
  in the arithmetic of the program. A cell is owned by \<open>who\<close> when it
  is on the board and holds a stone of \<open>who\<close>. A maximal run of \<open>who\<close> on an axis starts at
  a cell owned by \<open>who\<close> whose predecessor on the axis is not; its length is the number of
  consecutive owned cells from there; an end is open when the cell beyond it is on the
  board and empty. The pattern table gives the weight of a run from its length and its
  number of open ends.
\<close>

definition stepCell :: "cell \<Rightarrow> int \<times> int \<Rightarrow> int \<Rightarrow> cell" where
  "stepCell c d k = (fst c + fst d * k, snd c + snd d * k)"

definition ownedAt :: "board \<Rightarrow> nat \<Rightarrow> cell \<Rightarrow> bool" where
  "ownedAt b who c \<longleftrightarrow> inBounds (fst c) (snd c) \<and> bget b (fst c) (snd c) = who"

definition spec_runStart :: "board \<Rightarrow> nat \<Rightarrow> int \<times> int \<Rightarrow> cell \<Rightarrow> bool" where
  "spec_runStart b who d c \<longleftrightarrow>
     who \<noteq> EMPTY \<and> ownedAt b who c \<and> \<not> ownedAt b who (stepCell c d (- 1))"

definition spec_runLength :: "board \<Rightarrow> nat \<Rightarrow> int \<times> int \<Rightarrow> cell \<Rightarrow> nat" where
  "spec_runLength b who d c =
     length (takeWhile (\<lambda>k. ownedAt b who (stepCell c d k)) [0 .. BOARD_SIZE - 1])"

definition spec_openEnds :: "board \<Rightarrow> nat \<Rightarrow> int \<times> int \<Rightarrow> cell \<Rightarrow> nat" where
  "spec_openEnds b who d c =
     (if emptyAt b (stepCell c d (- 1)) then 1 else 0) +
     (if emptyAt b (stepCell c d (int (spec_runLength b who d c))) then 1 else 0)"

definition spec_patternWeight :: "nat \<Rightarrow> nat \<Rightarrow> rat" where
  "spec_patternWeight n opn =
     (if n \<ge> 5 then FIVE
      else if n = 4 \<and> opn = 2 then OPEN_FOUR
      else if n = 4 \<and> opn = 1 then HALF_OPEN_FOUR
      else if n = 3 \<and> opn = 2 then OPEN_THREE
      else if n = 3 \<and> opn = 1 then HALF_OPEN_THREE
      else if n = 2 \<and> opn = 2 then OPEN_TWO
      else if n = 2 \<and> opn = 1 then HALF_OPEN_TWO
      else if n = 1 \<and> opn = 2 then OPEN_ONE
      else 0)"

definition spec_runWeight :: "board \<Rightarrow> nat \<Rightarrow> int \<times> int \<Rightarrow> cell \<Rightarrow> rat" where
  "spec_runWeight b who d c =
     (if spec_runStart b who d c
      then spec_patternWeight (spec_runLength b who d c) (spec_openEnds b who d c)
      else 0)"

definition spec_runsScore :: "board \<Rightarrow> nat \<Rightarrow> rat" where
  "spec_runsScore b who =
     sum_list (map (\<lambda>d. sum_list (map (\<lambda>c. spec_runWeight b who d c) ALL_CELLS)) DIRECTIONS)"

definition spec_centerScore :: "board \<Rightarrow> nat \<Rightarrow> rat" where
  "spec_centerScore b who =
     sum_list (map (\<lambda>c. if bget b (fst c) (snd c) = who then centerBonus (fst c) (snd c) else 0)
                   ALL_CELLS)"




section \<open>Properties of the game engine\<close>

lemma collectPos_returns:
  assumes "dx \<noteq> 0 \<or> dy \<noteq> 0"
  shows "\<exists>cs. collectPos e x y dx dy player i cells = Some cs"
proof -
  define m where "m = (\<lambda>i. if dx > 0 then nat (size_e e - (x + dx * i))
                         else if dx < 0 then nat (x + dx * i + 1)
                         else if dy > 0 then nat (size_e e - (y + dy * i))
                         else nat (y + dy * i + 1))"
  show ?thesis
  proof (induction "m i" arbitrary: i cells rule: less_induct)
    case less
    show ?case
    proof (cases "\<not> ge_inBounds e (x + dx * i) (y + dy * i) \<or>
                  cellAt (board e) (x + dx * i) (y + dy * i) \<noteq> player")
      case True
      then show ?thesis by (subst collectPos.simps) (simp add: Let_def)
    next
      case False
      then have ib: "ge_inBounds e (x + dx * i) (y + dy * i)" by simp
      have "m (i + 1) < m i"
        using ib assms unfolding m_def ge_inBounds_def
        by (auto simp: algebra_simps)
      from less[OF this] obtain cs where
        "collectPos e x y dx dy player (i + 1) (cells @ [(x + dx * i, y + dy * i)]) = Some cs"
        by blast
      with False show ?thesis by (subst collectPos.simps) (simp add: Let_def)
    qed
  qed
qed

lemma collectNeg_returns:
  assumes "dx \<noteq> 0 \<or> dy \<noteq> 0"
  shows "\<exists>cs. collectNeg e x y dx dy player i cells = Some cs"
proof -
  define m where "m = (\<lambda>i. if dx < 0 then nat (size_e e - (x - dx * i))
                         else if dx > 0 then nat (x - dx * i + 1)
                         else if dy < 0 then nat (size_e e - (y - dy * i))
                         else nat (y - dy * i + 1))"
  show ?thesis
  proof (induction "m i" arbitrary: i cells rule: less_induct)
    case less
    show ?case
    proof (cases "\<not> ge_inBounds e (x - dx * i) (y - dy * i) \<or>
                  cellAt (board e) (x - dx * i) (y - dy * i) \<noteq> player")
      case True
      then show ?thesis by (subst collectNeg.simps) (simp add: Let_def)
    next
      case False
      then have ib: "ge_inBounds e (x - dx * i) (y - dy * i)" by simp
      have "m (i + 1) < m i"
        using ib assms unfolding m_def ge_inBounds_def
        by (auto simp: algebra_simps)
      from less[OF this] obtain cs where
        "collectNeg e x y dx dy player (i + 1) ((x - dx * i, y - dy * i) # cells) = Some cs"
        by blast
      with False show ?thesis by (subst collectNeg.simps) (simp add: Let_def)
    qed
  qed
qed

lemma collectLine_returns:
  "dx \<noteq> 0 \<or> dy \<noteq> 0 \<Longrightarrow> \<exists>cs. collectLine e x y dx dy player = Some cs"
proof -
  assume nz: "dx \<noteq> 0 \<or> dy \<noteq> 0"
  from collectPos_returns[OF nz] obtain c1 where
    c1: "collectPos e x y dx dy player 1 [(x, y)] = Some c1" by blast
  from collectNeg_returns[OF nz] obtain c2 where
    "collectNeg e x y dx dy player 1 c1 = Some c2" by blast
  with c1 show ?thesis by (simp add: collectLine_def)
qed

lemma checkWinDirs_returns:
  "\<forall>d \<in> set ds. fst d \<noteq> 0 \<or> snd d \<noteq> 0 \<Longrightarrow> checkWinDirs allow e x y player ds \<noteq> None"
proof (induction ds)
  case Nil
  show ?case by simp
next
  case (Cons d ds)
  obtain dx dy where d: "d = (dx, dy)" by (cases d)
  with Cons.prems have "dx \<noteq> 0 \<or> dy \<noteq> 0" by simp
  from collectLine_returns[OF this] obtain cs where "collectLine e x y dx dy player = Some cs"
    by blast
  moreover have "checkWinDirs allow e x y player ds \<noteq> None"
    using Cons by simp
  ultimately show ?case using d by (cases allow) auto
qed

lemma ge_checkWin_returns: "\<exists>won line. ge_checkWin allow e x y player = Some (won, line)"
proof -
  have "ge_checkWin allow e x y player \<noteq> None"
    unfolding ge_checkWin_def by (rule checkWinDirs_returns) (simp add: GE_DIRECTIONS_def)
  then obtain r where "ge_checkWin allow e x y player = Some r" by blast
  then show ?thesis by (cases r) blast
qed

lemma board_ok_setCell: "board_ok n b \<Longrightarrow> board_ok n (setCell b x y v)"
proof (cases "nat y < length b")
  case True
  assume ok: "board_ok n b"
  with True have "length ((b ! nat y)[nat x := v]) = nat n"
    by (simp add: board_ok_def)
  with ok show ?thesis
    unfolding board_ok_def setCell_def
    by (auto dest!: subsetD[OF set_update_subset_insert])
next
  case False
  assume "board_ok n b"
  with False show ?thesis by (simp add: setCell_def list_update_beyond)
qed

lemma setCell_restore:
  assumes "nat y < length b" "cellAt b x y = 0"
  shows "setCell (setCell b x y p) x y 0 = b"
proof -
  have "(b ! nat y)[nat x := 0] = b ! nat y"
    using assms(2) unfolding cellAt_def by (metis list_update_id)
  with assms(1) show ?thesis
    unfolding setCell_def by simp
qed

lemma placeStone_inv:
  assumes "engine_inv e" "placeStone allow e x y = Some (r, e')"
  shows "engine_inv e'"
proof -
  have ok: "board_ok (size_e e) (setCell (board e) x y (currentPlayer e))"
    using assms(1) by (simp add: engine_inv_def board_ok_setCell)
  show ?thesis
    using assms ok unfolding placeStone_def engine_inv_def
    by (auto simp: Let_def split: if_splits option.splits prod.splits)
qed

lemma undoMove_inv:
  assumes "engine_inv e" "undoMove e = (m, e')"
  shows "engine_inv e'"
  using assms unfolding undoMove_def engine_inv_def
  by (auto simp: Let_def board_ok_setCell split: if_splits)

lemma reset_inv: "5 \<le> n \<Longrightarrow> engine_inv (reset n)"
  by (simp add: engine_inv_def reset_def board_ok_def createEmptyBoard_def)

lemma reachable_inv: "reachable e \<Longrightarrow> engine_inv e"
  by (induction rule: reachable.induct) (auto intro: reset_inv placeStone_inv undoMove_inv)

text \<open>
  Claim C9. Whenever \<open>placeStone\<close> answers with an invalid result (the game is already
  over, the position is out of bounds, or the cell is occupied), the whole engine state
  (board, currentPlayer, moveHistory, gameOver, winner, and the rest of the record) is the
  state before the call; and in each of these three situations it does answer so.
\<close>

theorem placeStone_invalid_unchanged:
  "(gameOver e \<or> \<not> isValidMove e x y \<longrightarrow>
      (\<exists>r. placeStone allow e x y = Some (r, e) \<and> \<not> valid r)) \<and>
   (\<forall>r e'. placeStone allow e x y = Some (r, e') \<and> \<not> valid r \<longrightarrow> e' = e)"
  unfolding placeStone_def
  by (auto simp: Let_def split: if_splits option.splits prod.splits)

theorem placeStone_invalid_unchanged_witness:
  "(gameOver (reset 15) \<or> \<not> isValidMove (reset 15) (-1) 0) \<and>
   (\<exists>r. placeStone False (reset 15) (-1) 0 = Some (r, reset 15) \<and> \<not> valid r)"
  using placeStone_invalid_unchanged[of "reset 15" "-1" 0 False]
  by (simp add: isValidMove_def ge_inBounds_def reset_def)

text \<open>
  Claim C10. From a reachable state that is not game-over, a valid \<open>placeStone\<close> followed
  by \<open>undoMove\<close> returns the move just placed and gives back the state before the
  placement: board, currentPlayer, moveHistory, gameOver and winner (and size and the
  cached win line). The placement may have ended the game by a win or a draw.
\<close>

theorem place_then_undo_restores:
  assumes "reachable e" "\<not> gameOver e" "isValidMove e x y"
  shows "\<exists>r e1. placeStone allow e x y = Some (r, e1) \<and> valid r \<and>
           undoMove e1 = (Some \<lparr> mx = x, my = y, mplayer = currentPlayer e,
                                 moveNumber = length (moveHistory e) + 1 \<rparr>, e)"
proof -
  have inv: "engine_inv e" using assms(1) by (rule reachable_inv)
  have yb: "nat y < length (board e)"
    using inv assms(3) by (auto simp: engine_inv_def board_ok_def isValidMove_def ge_inBounds_def)
  have rest: "setCell (setCell (board e) x y (currentPlayer e)) x y 0 = board e"
    using yb assms(3) by (simp add: setCell_restore isValidMove_def)
  have w0: "winner e = 0" "winLine e = None"
    using inv assms(2) by (simp_all add: engine_inv_def)
  define e2 where "e2 = e\<lparr> board := setCell (board e) x y (currentPlayer e),
       moveHistory := moveHistory e @ [\<lparr> mx = x, my = y, mplayer = currentPlayer e,
                      moveNumber = length (moveHistory e) + 1 \<rparr>] \<rparr>"
  obtain won line where cw: "ge_checkWin allow e2 x y (currentPlayer e) = Some (won, line)"
    using ge_checkWin_returns by blast
  show ?thesis
    using assms(2,3) cw rest w0 unfolding placeStone_def undoMove_def e2_def
    by (auto simp: Let_def)
qed

theorem place_then_undo_restores_witness:
  "reachable (reset 15) \<and> \<not> gameOver (reset 15) \<and> isValidMove (reset 15) 7 7 \<and>
   (\<exists>r e1. placeStone False (reset 15) 7 7 = Some (r, e1) \<and> valid r \<and>
           undoMove e1 = (Some \<lparr> mx = 7, my = 7, mplayer = currentPlayer (reset 15),
                                 moveNumber = length (moveHistory (reset 15)) + 1 \<rparr>, reset 15))"
proof -
  have r: "reachable (reset 15)" by (rule r_new) simp
  have g: "\<not> gameOver (reset 15)" by (simp add: reset_def)
  have v: "isValidMove (reset 15) 7 7"
    by (simp add: isValidMove_def ge_inBounds_def reset_def cellAt_def createEmptyBoard_def)
  show ?thesis using place_then_undo_restores[OF r g v, of False] r g v by simp
qed


section \<open>Properties of the AI engine\<close>

subsection \<open>Where double arithmetic is exact\<close>

lemma bitLength_le: "n < 2 ^ k \<Longrightarrow> bitLength n \<le> k"
proof (induction k arbitrary: n)
  case 0
  then show ?case by (subst bitLength.simps) simp
next
  case (Suc k)
  show ?case
  proof (cases "n \<le> 0")
    case True
    then show ?thesis by (subst bitLength.simps) simp
  next
    case False
    from Suc.prems have "n div 2 < 2 ^ k" by simp
    from Suc.IH[OF this] False show ?thesis by (subst bitLength.simps) simp
  qed
qed

lemma bitLength_1: "bitLength 1 = 1"
  by (simp add: bitLength.simps)

lemma pow2_nonpos: "e \<le> 0 \<Longrightarrow> pow2 e = 1 / 2 ^ nat (- e)"
  by (cases "e = 0") (simp_all add: pow2_def)

lemma roundEven_int: "roundEven (of_int j) = j"
  by (simp add: roundEven_def)

text \<open>Rounding leaves an integer below \<open>2^53\<close> in magnitude as it is.\<close>

lemma toDouble_int:
  assumes "\<bar>n\<bar> < 2 ^ 53"
  shows "toDouble (of_int n) = of_int n"
proof (cases "n = 0")
  case True
  then show ?thesis by (simp add: toDouble_def)
next
  case False
  define a where "a = \<bar>n\<bar>"
  have a: "0 < a" "a < 2 ^ 53" using False assms by (simp_all add: a_def)
  have ab: "\<bar>of_int n :: rat\<bar> = of_int a" by (simp add: a_def)
  have bl: "bitLength a \<le> 53" by (rule bitLength_le) (rule a(2))
  have bp: "1 \<le> bitLength a" using a(1) by (subst bitLength.simps) simp
  define e0 where "e0 = binade (of_int a)"
  have e0: "e0 = int (bitLength a) - 1 \<or> e0 = int (bitLength a) - 2"
    unfolding e0_def binade_def by (simp add: bitLength_1 Let_def)
  define e where "e = max e0 (- 1022) - 52"
  have ee: "e = e0 - 52" and le: "e \<le> 0" using e0 bl bp unfolding e_def by auto
  define k where "k = nat (- e)"
  have p: "pow2 e = 1 / 2 ^ k" unfolding k_def using le by (rule pow2_nonpos)
  have q: "of_int a / pow2 e = (of_int (a * 2 ^ k) :: rat)" by (simp add: p)
  have r: "roundEven (of_int a / pow2 e) = a * 2 ^ k" unfolding q by (rule roundEven_int)
  have "toDouble (of_int n) = sgn (of_int n) * of_int (roundEven (of_int a / pow2 e)) * pow2 e"
    using False unfolding toDouble_def ab e_def e0_def by (simp add: Let_def)
  also have "\<dots> = sgn (of_int n) * of_int (a * 2 ^ k) * pow2 e"
    unfolding r ..
  also have "\<dots> = sgn (of_int n) * of_int (a * 2 ^ k) * (1 / 2 ^ k)"
    unfolding p ..
  also have "\<dots> = sgn (of_int n) * of_int a" by simp
  also have "\<dots> = of_int n" unfolding a_def by (simp add: sgn_if)
  finally show ?thesis .
qed

text \<open>The products of the blocking weights with the literal 0.9 are exact.\<close>

lemma block_products_exact:
  "map (\<lambda>w. num_mul w lit_0_9) [FIVE, HALF_OPEN_FOUR, OPEN_THREE, HALF_OPEN_THREE, 0] =
   map (\<lambda>w. w * (9 / 10)) [FIVE, HALF_OPEN_FOUR, OPEN_THREE, HALF_OPEN_THREE, 0]"
  by code_simp

text \<open>
  The 70% test of iterative deepening at a budget of 90 ms: the product is the double
  just below 63. At the budget of 2000 ms that \<open>masterMove\<close> passes it is 1400.
\<close>

lemma budget_products:
  "num_mul 90 lit_0_7 = 8866461766385663 / 140737488355328 \<and> num_mul 90 lit_0_7 < 63 \<and>
   num_mul 2000 lit_0_7 = 1400"
  by code_simp

subsection \<open>Reading and writing cells\<close>

lemma in_ALL_CELLS: "(i, j) \<in> set ALL_CELLS \<longleftrightarrow> inBounds i j"
  by (force simp: ALL_CELLS_def inBounds_def BOARD_SIZE_def)

lemma distinct_ALL_CELLS: "distinct ALL_CELLS"
  unfolding ALL_CELLS_def
  by (rule distinct_concat) (auto simp: distinct_map inj_on_def)

lemma length_ALL_CELLS: "length ALL_CELLS = 225"
  by (simp add: ALL_CELLS_def BOARD_SIZE_def length_concat comp_def sum_list_triv)

lemma wf_board_bset: "wf_board b \<Longrightarrow> wf_board (bset b i j v)"
proof (cases "nat i < length b")
  case True
  assume ok: "wf_board b"
  with True have "length ((b ! nat i)[nat j := v]) = nat BOARD_SIZE"
    by (simp add: wf_board_def board_ok_def)
  with ok show ?thesis
    unfolding wf_board_def board_ok_def bset_def
    by (auto dest!: subsetD[OF set_update_subset_insert])
next
  case False
  assume "wf_board b"
  with False show ?thesis by (simp add: bset_def list_update_beyond)
qed

lemma bset_restore:
  assumes "nat i < length b" "bget b i j = EMPTY"
  shows "bset (bset b i j v) i j EMPTY = b"
proof -
  have "(b ! nat i)[nat j := EMPTY] = b ! nat i"
    using assms(2) unfolding bget_def by (metis list_update_id)
  with assms(1) show ?thesis
    unfolding bset_def by simp
qed

lemma bset_restore_wf:
  "wf_board b \<Longrightarrow> inBounds i j \<Longrightarrow> bget b i j = EMPTY \<Longrightarrow> bset (bset b i j v) i j EMPTY = b"
  by (rule bset_restore) (auto simp: wf_board_def board_ok_def inBounds_def)

lemma bget_bset:
  assumes "wf_board b" "inBounds i j" "inBounds i' j'"
  shows "bget (bset b i j v) i' j' = (if i' = i \<and> j' = j then v else bget b i' j')"
proof -
  have li: "nat i < length b" and li': "nat i' < length b"
    using assms by (auto simp: wf_board_def board_ok_def inBounds_def)
  have lj: "nat j < length (b ! nat i)"
    using assms li by (auto simp: wf_board_def board_ok_def inBounds_def)
  have e: "nat i' = nat i \<longleftrightarrow> i' = i" "nat j' = nat j \<longleftrightarrow> j' = j"
    using assms(2,3) by (auto simp: inBounds_def)
  show ?thesis
    using li li' lj e unfolding bget_def bset_def
    by (auto simp: nth_list_update)
qed

lemma length_filter_mono:
  "(\<And>x. x \<in> set xs \<Longrightarrow> P x \<Longrightarrow> Q x) \<Longrightarrow> length (filter P xs) \<le> length (filter Q xs)"
  by (induction xs) auto

lemma length_filter_strict:
  assumes "\<And>x. x \<in> set xs \<Longrightarrow> P x \<Longrightarrow> Q x" "a \<in> set xs" "Q a" "\<not> P a"
  shows "length (filter P xs) < length (filter Q xs)"
  using assms
proof (induction xs)
  case Nil
  then show ?case by simp
next
  case (Cons x xs)
  show ?case
  proof (cases "a = x")
    case True
    have "length (filter P xs) \<le> length (filter Q xs)"
      by (rule length_filter_mono) (use Cons.prems(1) in auto)
    with True Cons.prems show ?thesis by simp
  next
    case False
    with Cons.prems have "a \<in> set xs" by simp
    then have "length (filter P xs) < length (filter Q xs)"
      using Cons.IH Cons.prems by simp
    then show ?thesis using Cons.prems(1)[of x] by auto
  qed
qed

lemma emptyCount_le: "emptyCount b \<le> 225"
  unfolding emptyCount_def using length_filter_le[of _ ALL_CELLS] length_ALL_CELLS by metis

lemma emptyCount_bset_less:
  assumes "wf_board b" "inBounds i j" "bget b i j = EMPTY" "v \<noteq> EMPTY"
  shows "emptyCount (bset b i j v) < emptyCount b"
  unfolding emptyCount_def
proof (rule length_filter_strict[where a = "(i, j)"])
  fix x assume x: "x \<in> set ALL_CELLS"
    and e: "case x of (i', j') \<Rightarrow> bget (bset b i j v) i' j' = EMPTY"
  obtain i' j' where xe: "x = (i', j')" by (cases x)
  with x have ib: "inBounds i' j'" by (simp add: in_ALL_CELLS)
  from e xe have "bget (bset b i j v) i' j' = EMPTY" by simp
  then have "bget b i' j' = EMPTY"
    using assms ib by (simp add: bget_bset split: if_splits)
  then show "case x of (i', j') \<Rightarrow> bget b i' j' = EMPTY" using xe by simp
next
  show "(i, j) \<in> set ALL_CELLS" using assms(2) by (simp add: in_ALL_CELLS)
  show "case (i, j) of (i', j') \<Rightarrow> bget b i' j' = EMPTY" using assms(3) by simp
  show "\<not> (case (i, j) of (i', j') \<Rightarrow> bget (bset b i j v) i' j' = EMPTY)"
    using assms by (simp add: bget_bset)
qed



text \<open>
  Claim C8. For a string that is none of "easy", "medium", "hard", "master",
  \<open>setDifficulty\<close> leaves the stored difficulty as it is (the model has no error value to
  return); and when the stored difficulty is none of the four, \<open>getMove\<close> is the Medium
  policy: \<open>findBestMove\<close> at depth 2 with a limit of 1000 ms and the basic evaluator.
\<close>

theorem setDifficulty_getMove_default:
  "(level \<notin> set [''easy'', ''medium'', ''hard'', ''master''] \<longrightarrow> setDifficulty d level = d) \<and>
   (d \<notin> set [''easy'', ''medium'', ''hard'', ''master''] \<longrightarrow>
      getMove d fuel st b player = getMove ''medium'' fuel st b player \<and>
      (length b \<noteq> 0 \<longrightarrow>
         getMove d fuel st b player = findBestMove fuel (newMinimaxEngine st) b player 2 1000 False))"
  by (simp add: setDifficulty_def getMove_def mediumMove_def)

theorem setDifficulty_getMove_default_witness:
  "''expert'' \<notin> set [''easy'', ''medium'', ''hard'', ''master''] \<and>
   setDifficulty ''hard'' ''expert'' = ''hard'' \<and>
   length emptyBoard \<noteq> 0 \<and>
   getMove ''expert'' 226 idleState emptyBoard BLACK = getMove ''medium'' 226 idleState emptyBoard BLACK \<and>
   getMove ''expert'' 226 idleState emptyBoard BLACK =
     findBestMove 226 (newMinimaxEngine idleState) emptyBoard BLACK 2 1000 False"
proof -
  have n: "''expert'' \<notin> set [''easy'', ''medium'', ''hard'', ''master'']" by simp
  have l: "length emptyBoard \<noteq> 0" by (simp add: emptyBoard_def)
  show ?thesis
    using n l
      setDifficulty_getMove_default[where level = "''expert''" and d = "''expert''" and fuel = 226
          and st = idleState and b = emptyBoard and player = BLACK]
      setDifficulty_getMove_default[where level = "''expert''" and d = "''hard''" and fuel = 226
          and st = idleState and b = emptyBoard and player = BLACK]
    by blast
qed

text \<open>
  Claim C1, evaluated on six black stones in a row. The whole-board \<open>checkWin\<close> of ai.js
  reports a win for black; it has no overline flag. \<open>GameEngine.checkWin\<close> through one of
  the six stones reports no win with the flag off and a win with the flag on.
\<close>

theorem checkWin_overline_is_win:
  "checkWin sixBoard BLACK \<and>
   ge_checkWin False sixEngine 3 0 BLACK = Some (False, None) \<and>
   ge_checkWin True sixEngine 3 0 BLACK = Some (True, Some [(0, 0), (1, 0), (2, 0), (3, 0), (4, 0)])"
  by code_simp

text \<open>
  Claim C5 as stated fails. Next to three white stones with both ends open, the opponent
  run through (7, 8) has total 4 and two open ends; the defensive term is 90000, while 0.9
  times the offensive weight for (4, 2) is 900000. Above the middle stone the opponent run
  through (6, 7) has total 2; the defensive term is 0, not 0.9 times the open-two weight.
\<close>

theorem defensive_term_counterexample:
  "runThrough threeBoard 7 8 (opponent BLACK) (0, 1) = (4, 2) \<and>
   defensiveTerm threeBoard 7 8 BLACK (0, 1) = 90000 \<and>
   (9 / 10) * attackWeight 4 2 = 900000 \<and>
   runThrough threeBoard 6 7 (opponent BLACK) (1, 0) = (2, 2) \<and>
   defensiveTerm threeBoard 6 7 BLACK (1, 0) = 0 \<and>
   (9 / 10) * attackWeight 2 2 = 90"
  by code_simp

lemma runThrough_open_le: "snd (runThrough b x y who d) \<le> 2"
  by (auto simp: runThrough_def split: prod.splits)

text \<open>
  Claim C5 as amended. On each axis the defensive term of \<open>scoreMoveQuick\<close> is 0.9 times
  the offensive weight for the opponent's total and open-end count through the cell, except
  that a total of 4 with both ends open is weighted as a half-open four and a total of 2
  contributes nothing.
\<close>

theorem defensive_term_weights:
  "defensiveTerm b x y player d =
     (9 / 10) * (case runThrough b x y (opponent player) d of
                   (oppTotal, oppOpen) \<Rightarrow>
                     if oppTotal = 4 \<and> oppOpen = 2 then HALF_OPEN_FOUR
                     else if oppTotal = 2 then 0
                     else attackWeight oppTotal oppOpen)"
proof -
  obtain t opn where r: "runThrough b x y (opponent player) d = (t, opn)"
    by (cases "runThrough b x y (opponent player) d")
  have "opn \<le> 2" using runThrough_open_le[of b x y "opponent player" d] r by simp
  then have "opn = 0 \<or> opn = 1 \<or> opn = 2" by arith
  then show ?thesis
    unfolding defensiveTerm_def r by (auto simp: blockValue_def attackWeight_def)
qed

subsection \<open>The evaluators return\<close>

lemma countRun_returns:
  assumes "dx \<noteq> 0 \<or> dy \<noteq> 0"
  shows "countRun b stone ci cj dx dy n \<noteq> None"
proof -
  define m where "m = (\<lambda>ci cj. if dx > 0 then nat (BOARD_SIZE - ci)
                         else if dx < 0 then nat (ci + 1)
                         else if dy > 0 then nat (BOARD_SIZE - cj)
                         else nat (cj + 1))"
  show ?thesis
  proof (induction "m ci cj" arbitrary: ci cj n rule: less_induct)
    case less
    show ?case
    proof (cases "inBounds ci cj \<and> bget b ci cj = stone")
      case False
      then show ?thesis by (subst countRun.simps) auto
    next
      case True
      then have "m (ci + dx) (cj + dy) < m ci cj"
        using assms unfolding m_def inBounds_def by auto
      from less[OF this] have
        "countRun b stone (ci + dx) (cj + dy) dx dy (n + 1) \<noteq> None" .
      with True show ?thesis by (subst countRun.simps) simp
    qed
  qed
qed

lemma evalRunAt_returns:
  assumes "fst d \<noteq> 0 \<or> snd d \<noteq> 0"
  shows "evalRunAt b player d c acc \<noteq> None"
proof -
  obtain dx dy where d: "d = (dx, dy)" by (cases d)
  obtain i j where c: "c = (i, j)" by (cases c)
  obtain my opp where a: "acc = (my, opp)" by (cases acc)
  from assms d have nz: "dx \<noteq> 0 \<or> dy \<noteq> 0" by simp
  from countRun_returns[OF nz] obtain r where
    r: "countRun b (bget b i j) i j dx dy 0 = Some r" by fastforce
  obtain n ci cj where "r = (n, ci, cj)" by (cases r)
  with r show ?thesis
    unfolding evalRunAt_def d c a by (simp add: Let_def)
qed

lemma foldOption_returns:
  "(\<And>x s. x \<in> set xs \<Longrightarrow> f x s \<noteq> None) \<Longrightarrow> foldOption f xs s \<noteq> None"
proof (induction xs arbitrary: s)
  case Nil
  show ?case by simp
next
  case (Cons x xs)
  from Cons.prems[of x s] obtain s' where "f x s = Some s'" by auto
  moreover have "foldOption f xs s' \<noteq> None"
    by (rule Cons.IH) (simp add: Cons.prems)
  ultimately show ?case by simp
qed

lemma evaluateBoard_returns: "evaluateBoard b player \<noteq> None"
proof -
  have "foldOption (\<lambda>d acc. foldOption (\<lambda>c acc. evalRunAt b player d c acc) ALL_CELLS acc)
          DIRECTIONS (0, 0) \<noteq> None"
  proof (rule foldOption_returns)
    fix d :: "int \<times> int" and s :: "rat \<times> rat"
    assume "d \<in> set DIRECTIONS"
    then have nz: "fst d \<noteq> 0 \<or> snd d \<noteq> 0" by (auto simp: DIRECTIONS_def)
    show "foldOption (\<lambda>c acc. evalRunAt b player d c acc) ALL_CELLS s \<noteq> None"
      by (rule foldOption_returns) (rule evalRunAt_returns[OF nz])
  qed
  then obtain r where "foldOption (\<lambda>d acc. foldOption (\<lambda>c acc. evalRunAt b player d c acc) ALL_CELLS acc)
          DIRECTIONS (0, 0) = Some r" by blast
  then show ?thesis
    unfolding evaluateBoard_def by (cases r) (simp add: Let_def)
qed

lemma evaluateBoardAdvanced_returns: "evaluateBoardAdvanced b player \<noteq> None"
  using evaluateBoard_returns[of b player]
  unfolding evaluateBoardAdvanced_def by (auto split: prod.splits)

lemma staticEval_returns: "staticEval st b player \<noteq> None"
  unfolding staticEval_def using evaluateBoard_returns evaluateBoardAdvanced_returns by simp

subsection \<open>The candidate generator\<close>

lemma keyOf_inj:
  assumes "inBounds (fst c) (snd c)" "inBounds (fst c') (snd c')" "keyOf c = keyOf c'"
  shows "c = c'"
proof -
  have "fst c * 15 + snd c = fst c' * 15 + snd c'"
    using assms(3) by (simp add: keyOf_def BOARD_SIZE_def)
  moreover have "0 \<le> snd c" "snd c < 15" "0 \<le> snd c'" "snd c' < 15"
    using assms(1,2) by (auto simp: inBounds_def BOARD_SIZE_def)
  ultimately have "fst c = fst c' \<and> snd c = snd c'" by arith
  then show ?thesis by (simp add: prod_eq_iff)
qed

lemma visitCell_inv:
  assumes "candInv b st"
  shows "candInv b (visitCell b ni nj st)"
    and "set (fst (visitCell b ni nj st)) = set (fst st) \<union> {c. c = (ni, nj) \<and> emptyAt b c}"
proof -
  obtain cs vs where st: "st = (cs, vs)" by (cases st)
  have inv: "\<forall>c \<in> set cs. emptyAt b c" "set vs = keyOf ` set cs"
    using assms st by (auto simp: candInv_def)
  show "candInv b (visitCell b ni nj st)"
    using inv unfolding st visitCell_def candInv_def
    by (auto simp: Let_def emptyAt_def keyOf_def)
  show "set (fst (visitCell b ni nj st)) = set (fst st) \<union> {c. c = (ni, nj) \<and> emptyAt b c}"
  proof (cases "emptyAt b (ni, nj)")
    case False
    then show ?thesis unfolding st visitCell_def by (auto simp: emptyAt_def)
  next
    case True
    show ?thesis
    proof (cases "ni * BOARD_SIZE + nj \<in> set vs")
      case False
      with True show ?thesis unfolding st visitCell_def by (auto simp: emptyAt_def Let_def)
    next
      case k: True
      then obtain c where c: "c \<in> set cs" "keyOf c = keyOf (ni, nj)"
        using inv(2) by (auto simp: keyOf_def)
      with inv(1) have "emptyAt b c" by blast
      then have "c = (ni, nj)"
        using keyOf_inj[of c "(ni, nj)"] c(2) True by (simp add: emptyAt_def)
      with c(1) have "(ni, nj) \<in> set cs" by simp
      with True k show ?thesis unfolding st visitCell_def by (auto simp: emptyAt_def Let_def)
    qed
  qed
qed

lemma scanOffsets_inv:
  assumes "candInv b st"
  shows "candInv b (foldl (offStep b i j) st offs) \<and>
         set (fst (foldl (offStep b i j) st offs)) =
           set (fst st) \<union> {c. emptyAt b c \<and> (fst c - i, snd c - j) \<in> set offs}"
  using assms
proof (induction offs arbitrary: st)
  case Nil
  then show ?case by simp
next
  case (Cons o1 offs)
  obtain di dj where o1: "o1 = (di, dj)" by (cases o1)
  define st1 where "st1 = visitCell b (i + di) (j + dj) st"
  have i1: "candInv b st1" unfolding st1_def by (rule visitCell_inv(1)[OF Cons.prems])
  have s1: "set (fst st1) = set (fst st) \<union> {c. c = (i + di, j + dj) \<and> emptyAt b c}"
    unfolding st1_def by (rule visitCell_inv(2)[OF Cons.prems])
  have f: "foldl (offStep b i j) st (o1 # offs) = foldl (offStep b i j) st1 offs"
    by (simp add: o1 offStep_def st1_def)
  have eq: "set (fst st1) \<union> {c. emptyAt b c \<and> (fst c - i, snd c - j) \<in> set offs} =
            set (fst st) \<union> {c. emptyAt b c \<and> (fst c - i, snd c - j) \<in> set (o1 # offs)}"
    unfolding s1 o1 by (auto simp: prod_eq_iff)
  from Cons.IH[OF i1] show ?case
    unfolding f eq[symmetric] by simp
qed

lemma in_offsets: "(di, dj) \<in> set (offsets r) \<longleftrightarrow> - r \<le> di \<and> di \<le> r \<and> - r \<le> dj \<and> dj \<le> r"
  by (force simp: offsets_def)

lemma scanAround_inv:
  assumes "candInv b st"
  shows "candInv b (scanAround b r i j st)"
    and "set (fst (scanAround b r i j st)) =
           set (fst st) \<union> {c. emptyAt b c \<and> \<bar>fst c - i\<bar> \<le> r \<and> \<bar>snd c - j\<bar> \<le> r}"
proof -
  have sa: "scanAround b r i j st = foldl (offStep b i j) st (offsets r)"
    by (simp add: scanAround_def offStep_def)
  note inv = scanOffsets_inv[OF assms, of i j "offsets r"]
  show "candInv b (scanAround b r i j st)" using inv unfolding sa by simp
  have "{c. emptyAt b c \<and> (fst c - i, snd c - j) \<in> set (offsets r)} =
        {c. emptyAt b c \<and> \<bar>fst c - i\<bar> \<le> r \<and> \<bar>snd c - j\<bar> \<le> r}"
    by (auto simp: in_offsets)
  then show "set (fst (scanAround b r i j st)) =
           set (fst st) \<union> {c. emptyAt b c \<and> \<bar>fst c - i\<bar> \<le> r \<and> \<bar>snd c - j\<bar> \<le> r}"
    using inv unfolding sa by simp
qed

lemma scanCells_inv:
  assumes "candInv b (fst acc)"
  shows "candInv b (fst (foldl (stoneStep b r) acc xs)) \<and>
         set (fst (fst (foldl (stoneStep b r) acc xs))) =
           set (fst (fst acc)) \<union> {c. emptyAt b c \<and> nearStone b r xs c} \<and>
         (snd (foldl (stoneStep b r) acc xs) \<longleftrightarrow>
            snd acc \<or> (\<exists>s \<in> set xs. bget b (fst s) (snd s) \<noteq> EMPTY))"
  using assms
proof (induction xs arbitrary: acc)
  case Nil
  then show ?case by (simp add: nearStone_def)
next
  case (Cons x xs)
  obtain i j where x: "x = (i, j)" by (cases x)
  obtain st h where acc: "acc = (st, h)" by (cases acc)
  have inv: "candInv b st" using Cons.prems acc by simp
  show ?case
  proof (cases "bget b i j \<noteq> EMPTY")
    case False
    have f: "foldl (stoneStep b r) acc (x # xs) = foldl (stoneStep b r) acc xs"
      using False by (simp add: x acc stoneStep_def)
    have ns: "{c. emptyAt b c \<and> nearStone b r (x # xs) c} = {c. emptyAt b c \<and> nearStone b r xs c}"
      using False unfolding x nearStone_def by simp
    have ex: "(\<exists>s \<in> set (x # xs). bget b (fst s) (snd s) \<noteq> EMPTY) \<longleftrightarrow>
              (\<exists>s \<in> set xs. bget b (fst s) (snd s) \<noteq> EMPTY)"
      using False unfolding x by simp
    from Cons.IH[OF Cons.prems] show ?thesis
      unfolding f ns ex .
  next
    case True
    define acc1 where "acc1 = (scanAround b r i j st, True)"
    have f: "foldl (stoneStep b r) acc (x # xs) = foldl (stoneStep b r) acc1 xs"
      using True by (simp add: x acc stoneStep_def acc1_def)
    have i1: "candInv b (fst acc1)"
      using scanAround_inv(1)[OF inv] by (simp add: acc1_def)
    have s1: "set (fst (fst acc1)) =
                set (fst st) \<union> {c. emptyAt b c \<and> \<bar>fst c - i\<bar> \<le> r \<and> \<bar>snd c - j\<bar> \<le> r}"
      using scanAround_inv(2)[OF inv, of r i j] by (simp add: acc1_def)
    have ns: "set (fst (fst acc1)) \<union> {c. emptyAt b c \<and> nearStone b r xs c} =
              set (fst (fst acc)) \<union> {c. emptyAt b c \<and> nearStone b r (x # xs) c}"
      unfolding s1 using True unfolding x acc nearStone_def by auto
    have ex: "(snd acc1 \<or> (\<exists>s \<in> set xs. bget b (fst s) (snd s) \<noteq> EMPTY)) \<longleftrightarrow>
              (snd acc \<or> (\<exists>s \<in> set (x # xs). bget b (fst s) (snd s) \<noteq> EMPTY))"
      using True unfolding x acc1_def by simp
    from Cons.IH[OF i1] show ?thesis
      unfolding f ns[symmetric] ex[symmetric] .
  qed
qed

lemma candInv_init: "candInv b ([], [])"
  by (simp add: candInv_def)

lemma set_generateCandidates:
  "set (generateCandidates b r) =
     (if \<exists>s \<in> set ALL_CELLS. bget b (fst s) (snd s) \<noteq> EMPTY
      then {c. emptyAt b c \<and> nearStone b r ALL_CELLS c}
      else {(CENTER, CENTER)})"
proof -
  have ss: "scanStones b r = foldl (stoneStep b r) (([], []), False) ALL_CELLS"
    by (simp add: scanStones_def stoneStep_def)
  obtain cs vs h where res: "scanStones b r = ((cs, vs), h)"
    by (metis surj_pair)
  have "candInv b (fst (([], []), False))" by (simp add: candInv_init)
  from scanCells_inv[OF this, of r ALL_CELLS]
  have "set cs = {c. emptyAt b c \<and> nearStone b r ALL_CELLS c}"
    and "h \<longleftrightarrow> (\<exists>s \<in> set ALL_CELLS. bget b (fst s) (snd s) \<noteq> EMPTY)"
    unfolding ss[symmetric] res by simp_all
  then show ?thesis
    unfolding generateCandidates_def res by simp
qed

subsection \<open>Candidates are empty cells\<close>

lemma center_in_cells: "(CENTER, CENTER) \<in> set ALL_CELLS"
  by (simp add: in_ALL_CELLS inBounds_def CENTER_def BOARD_SIZE_def)

lemma candidates_empty:
  assumes "c \<in> set (generateCandidates b r)"
  shows "emptyAt b c"
proof (cases "\<exists>s \<in> set ALL_CELLS. bget b (fst s) (snd s) \<noteq> EMPTY")
  case True
  with assms show ?thesis by (simp add: set_generateCandidates)
next
  case False
  with assms have c: "c = (CENTER, CENTER)" by (simp add: set_generateCandidates)
  from False center_in_cells have "bget b CENTER CENTER = EMPTY" by force
  then show ?thesis
    unfolding c emptyAt_def by (simp add: inBounds_def CENTER_def BOARD_SIZE_def)
qed

lemma set_getOrderedMoves:
  "fst ` set (getOrderedMoves b player r) = set (generateCandidates b r)"
  unfolding getOrderedMoves_def by (force simp: image_iff)

lemma length_getOrderedMoves:
  "length (getOrderedMoves b player r) = length (generateCandidates b r)"
  unfolding getOrderedMoves_def by simp

lemma orderedMoves_empty:
  "m \<in> set (getOrderedMoves b player r) \<Longrightarrow> emptyAt b (fst m)"
  using set_getOrderedMoves[of b player r] candidates_empty[of "fst m" b r] by blast

subsection \<open>The search gives the board back\<close>

lemma keeps_SomeI: "keeps b (Some (v, b, st'))"
  by (simp add: keeps_def)

lemma keeps_map_option: "r \<noteq> None \<Longrightarrow> keeps b (map_option (\<lambda>v. (v, b, st)) r)"
  by (auto simp: keeps_def)

lemma nodeEntry_Inl:
  assumes "nodeEntry st b depth maxP curP = Inl r"
  shows "keeps b r"
proof -
  obtain ex st1 where tc: "timeCheck (st\<lparr> nodesSearched := nodesSearched st + 1 \<rparr>) = (ex, st1)"
    by (metis surj_pair)
  have k: "keeps b (map_option (\<lambda>v. (v, b, st1)) (staticEval st1 b maxP))"
    by (rule keeps_map_option) (rule staticEval_returns)
  show ?thesis
    using assms k unfolding nodeEntry_def tc
    by (auto simp: Let_def keeps_SomeI split: if_splits)
qed

lemma nodeEntry_Inr:
  assumes "nodeEntry st b depth maxP curP = Inr (st1, ms)"
  shows "\<forall>m \<in> set ms. emptyAt b (fst m)"
proof -
  obtain ex st0 where tc: "timeCheck (st\<lparr> nodesSearched := nodesSearched st + 1 \<rparr>) = (ex, st0)"
    by (metis surj_pair)
  have "ms = take (maxMovesAt depth) (getOrderedMoves b curP 2)"
    using assms unfolding nodeEntry_def tc
    by (auto simp: Let_def split: if_splits)
  then have "set ms \<subseteq> set (getOrderedMoves b curP 2)" by (simp add: set_take_subset)
  then show ?thesis using orderedMoves_empty by blast
qed

lemma opponent_not_empty: "opponent p \<noteq> EMPTY"
  by (simp add: opponent_def EMPTY_def BLACK_def WHITE_def)

lemma emptyAt_restore:
  "wf_board b \<Longrightarrow> emptyAt b c \<Longrightarrow> bset (bset b (fst c) (snd c) v) (fst c) (snd c) EMPTY = b"
  by (simp add: emptyAt_def bset_restore_wf)

lemma searchMax_keeps:
  assumes IH: "\<And>st b' depth alpha beta maxP isMax.
            wf_board b' \<Longrightarrow> emptyCount b' < fuel \<Longrightarrow>
            keeps b' (alphabeta fuel st b' depth alpha beta maxP (opponent curP) isMax)"
    and wf: "wf_board b"
    and ms: "\<forall>m \<in> set ms. emptyAt b (fst m) \<and>
               emptyCount (bset b (fst (fst m)) (snd (fst m)) curP) < fuel"
  shows "keeps b (searchMax fuel st b depth alpha beta maxP curP ms v)"
  using ms
proof (induction ms arbitrary: st alpha v)
  case Nil
  show ?case by (simp add: keeps_SomeI)
next
  case (Cons m ms)
  define b1 where "b1 = bset b (fst (fst m)) (snd (fst m)) curP"
  have e: "emptyAt b (fst m)" and c: "emptyCount b1 < fuel"
    using Cons.prems by (simp_all add: b1_def)
  have "keeps b1 (alphabeta fuel st b1 (depth - 1) alpha beta maxP (opponent curP) False)"
    by (rule IH) (simp_all add: b1_def wf wf_board_bset c[unfolded b1_def])
  then obtain score st1 where
    ab: "alphabeta fuel st b1 (depth - 1) alpha beta maxP (opponent curP) False = Some (score, b1, st1)"
    by (auto simp: keeps_def)
  have undo: "bset b1 (fst (fst m)) (snd (fst m)) EMPTY = b"
    unfolding b1_def by (rule emptyAt_restore[OF wf e])
  have rest: "keeps b (searchMax fuel st1 b depth (max alpha (max v score)) beta maxP curP ms (max v score))"
    by (rule Cons.IH) (use Cons.prems in simp)
  show ?case
    using ab undo rest by (simp add: b1_def[symmetric] keeps_SomeI)
qed

lemma searchMin_keeps:
  assumes IH: "\<And>st b' depth alpha beta maxP isMax.
            wf_board b' \<Longrightarrow> emptyCount b' < fuel \<Longrightarrow>
            keeps b' (alphabeta fuel st b' depth alpha beta maxP (opponent curP) isMax)"
    and wf: "wf_board b"
    and ms: "\<forall>m \<in> set ms. emptyAt b (fst m) \<and>
               emptyCount (bset b (fst (fst m)) (snd (fst m)) curP) < fuel"
  shows "keeps b (searchMin fuel st b depth alpha beta maxP curP ms v)"
  using ms
proof (induction ms arbitrary: st beta v)
  case Nil
  show ?case by (simp add: keeps_SomeI)
next
  case (Cons m ms)
  define b1 where "b1 = bset b (fst (fst m)) (snd (fst m)) curP"
  have e: "emptyAt b (fst m)" and c: "emptyCount b1 < fuel"
    using Cons.prems by (simp_all add: b1_def)
  have "keeps b1 (alphabeta fuel st b1 (depth - 1) alpha beta maxP (opponent curP) True)"
    by (rule IH) (simp_all add: b1_def wf wf_board_bset c[unfolded b1_def])
  then obtain score st1 where
    ab: "alphabeta fuel st b1 (depth - 1) alpha beta maxP (opponent curP) True = Some (score, b1, st1)"
    by (auto simp: keeps_def)
  have undo: "bset b1 (fst (fst m)) (snd (fst m)) EMPTY = b"
    unfolding b1_def by (rule emptyAt_restore[OF wf e])
  have rest: "keeps b (searchMin fuel st1 b depth alpha (min beta (min v score)) maxP curP ms (min v score))"
    by (rule Cons.IH) (use Cons.prems in simp)
  show ?case
    using ab undo rest by (simp add: b1_def[symmetric] keeps_SomeI)
qed

lemma alphabeta_keeps:
  "wf_board b \<Longrightarrow> curP \<noteq> EMPTY \<Longrightarrow> emptyCount b < fuel \<Longrightarrow>
   keeps b (alphabeta fuel st b depth alpha beta maxP curP isMax)"
proof (induction fuel arbitrary: st b depth alpha beta maxP curP isMax)
  case 0
  then show ?case by simp
next
  case (Suc fuel)
  show ?case
  proof (cases "nodeEntry st b depth maxP curP")
    case (Inl r)
    then show ?thesis using nodeEntry_Inl[OF Inl] by simp
  next
    case (Inr p)
    obtain st1 ms where p: "p = (st1, ms)" by (cases p)
    have em: "\<forall>m \<in> set ms. emptyAt b (fst m)"
      using nodeEntry_Inr Inr p by blast
    have less: "\<forall>m \<in> set ms. emptyAt b (fst m) \<and>
               emptyCount (bset b (fst (fst m)) (snd (fst m)) curP) < fuel"
    proof
      fix m assume "m \<in> set ms"
      with em have e: "emptyAt b (fst m)" by blast
      then have "emptyCount (bset b (fst (fst m)) (snd (fst m)) curP) < emptyCount b"
        using Suc.prems(1,2) by (simp add: emptyAt_def emptyCount_bset_less)
      with Suc.prems(3) e
      show "emptyAt b (fst m) \<and> emptyCount (bset b (fst (fst m)) (snd (fst m)) curP) < fuel"
        by simp
    qed
    have IH: "\<And>st b' depth alpha beta maxP isMax.
            wf_board b' \<Longrightarrow> emptyCount b' < fuel \<Longrightarrow>
            keeps b' (alphabeta fuel st b' depth alpha beta maxP (opponent curP) isMax)"
      by (rule Suc.IH) (simp_all add: opponent_not_empty)
    have mx: "keeps b (searchMax fuel st1 b depth alpha beta maxP curP ms (- INF_N))"
      by (rule searchMax_keeps[OF IH Suc.prems(1) less])
    have mn: "keeps b (searchMin fuel st1 b depth alpha beta maxP curP ms INF_N)"
      by (rule searchMin_keeps[OF IH Suc.prems(1) less])
    show ?thesis using Inr p mx mn by simp
  qed
qed

subsection \<open>The probe loops and the drivers\<close>

lemma probeWin_ok:
  assumes "wf_board b"
  shows "\<forall>c \<in> set cs. emptyAt b c \<Longrightarrow> probeOk b who cs (probeWin b who cs)"
proof (induction cs)
  case Nil
  show ?case by (simp add: probeOk_def)
next
  case (Cons a cs)
  have r: "bset (bset b (fst a) (snd a) who) (fst a) (snd a) EMPTY = b"
    using Cons.prems assms by (simp add: emptyAt_restore)
  have ih: "probeOk b who cs (probeWin b who cs)"
    using Cons by simp
  show ?case
  proof (cases "checkWin (bset b (fst a) (snd a) who) who")
    case True
    then show ?thesis by (simp add: Let_def r probeOk_def)
  next
    case False
    then have "probeWin b who (a # cs) = probeWin b who cs" by (simp add: Let_def r)
    with ih False show ?thesis
      by (auto simp: probeOk_def split: option.splits)
  qed
qed

lemma emptyCount_less_fuel: "225 < fuel \<Longrightarrow> emptyCount b < fuel"
  using emptyCount_le[of b] by simp

lemma rootOk_mono: "rootOk b S r \<Longrightarrow> S \<subseteq> T \<Longrightarrow> rootOk b T r"
  by (auto simp: rootOk_def split: option.splits)

lemma searchRoot_ok:
  assumes "wf_board b" "225 < fuel"
  shows "\<forall>m \<in> set ms. emptyAt b (fst m) \<Longrightarrow>
         rootOk b (insert bm0 (set ms)) (searchRoot fuel st b player depth ms bm0 bs0)"
proof (induction ms arbitrary: st bm0 bs0)
  case Nil
  show ?case by (simp add: rootOk_def)
next
  case (Cons m ms)
  define b1 where "b1 = bset b (fst (fst m)) (snd (fst m)) player"
  have "keeps b1 (alphabeta fuel st b1 (depth - 1) (- INF_N) INF_N player (opponent player) False)"
    by (rule alphabeta_keeps)
       (simp_all add: b1_def assms(1) wf_board_bset opponent_not_empty emptyCount_less_fuel[OF assms(2)])
  then obtain score st1 where
    ab: "alphabeta fuel st b1 (depth - 1) (- INF_N) INF_N player (opponent player) False =
           Some (score, b1, st1)"
    by (auto simp: keeps_def)
  have undo: "bset b1 (fst (fst m)) (snd (fst m)) EMPTY = b"
    unfolding b1_def using Cons.prems assms(1) by (simp add: emptyAt_restore)
  have e: "\<forall>m \<in> set ms. emptyAt b (fst m)" using Cons.prems by simp
  have r1: "rootOk b (insert bm0 (set (m # ms))) (searchRoot fuel st1 b player depth ms m score)"
    by (rule rootOk_mono[OF Cons.IH[OF e]]) auto
  have r2: "rootOk b (insert bm0 (set (m # ms))) (searchRoot fuel st1 b player depth ms bm0 bs0)"
    by (rule rootOk_mono[OF Cons.IH[OF e]]) auto
  have r3: "rootOk b (insert bm0 (set (m # ms))) (Some (bm0, bs0, b, st1))"
    by (simp add: rootOk_def)
  have "searchRoot fuel st b player depth (m # ms) bm0 bs0 =
     (if timedOut st1 then Some (bm0, bs0, b, st1)
      else if score > bs0 then searchRoot fuel st1 b player depth ms m score
      else searchRoot fuel st1 b player depth ms bm0 bs0)"
    using ab undo by (simp add: b1_def[symmetric])
  then show ?case using r1 r2 r3 by simp
qed

lemma rootOkE:
  assumes "rootOk b S r"
  obtains bm bs st' where "r = Some (bm, bs, b, st')" "bm \<in> S"
proof -
  from assms obtain x where x: "r = Some x" by (cases r) (simp_all add: rootOk_def)
  obtain bm bs b' st' where t: "x = (bm, bs, b', st')" by (metis prod_cases4)
  from assms have "b' = b" "bm \<in> S" unfolding x t by (simp_all add: rootOk_def)
  with x t that show ?thesis by blast
qed

lemma resOkE:
  assumes "resOk b S r"
  obtains best st' where "r = Some (best, b, st')" "best \<in> S"
proof -
  from assms obtain x where x: "r = Some x" by (cases r) (simp_all add: resOk_def)
  obtain best b' st' where t: "x = (best, b', st')" by (metis prod_cases3)
  from assms have "b' = b" "best \<in> S" unfolding x t by (simp_all add: resOk_def)
  with x t that show ?thesis by blast
qed

lemma resOk_mono: "resOk b S r \<Longrightarrow> S \<subseteq> T \<Longrightarrow> resOk b T r"
  by (auto simp: resOk_def split: option.splits)

lemma deepen_ok:
  assumes "wf_board b" "225 < fuel" "\<forall>m \<in> set moves. emptyAt b (fst m)" "moves \<noteq> []"
  shows "resOk b (insert best (Some ` fst ` set moves))
           (deepen fuel st b player moves tlim ds best)"
proof (induction ds arbitrary: st best)
  case Nil
  show ?case by (simp add: resOk_def)
next
  case (Cons d ds)
  define st0 where "st0 = st\<lparr> nodesSearched := 0, timedOut := False \<rparr>"
  define top where "top = take 20 moves"
  have top0: "top ! 0 \<in> set moves"
    using assms(4) unfolding top_def by (cases moves) simp_all
  have tops: "set top \<subseteq> set moves" unfolding top_def by (rule set_take_subset)
  then have e: "\<forall>m \<in> set top. emptyAt b (fst m)" using assms(3) by blast
  have "rootOk b (insert (top ! 0) (set top))
          (searchRoot fuel st0 b player d top (top ! 0) (- INF_N))"
    by (rule searchRoot_ok[OF assms(1,2) e])
  then obtain bm bs st1 where
    sr: "searchRoot fuel st0 b player d top (top ! 0) (- INF_N) = Some (bm, bs, b, st1)"
    and bm: "bm \<in> insert (top ! 0) (set top)"
    by (rule rootOkE)
  from bm top0 tops have bmm: "bm \<in> set moves" by auto
  define best1 where "best1 = (if \<not> timedOut st1 then Some (fst bm) else best)"
  have b1: "best1 \<in> insert best (Some ` fst ` set moves)"
    using bmm unfolding best1_def by auto
  obtain t st2 where dn: "dateNow st1 = (t, st2)" by (metis surj_pair)
  have rec: "resOk b (insert best (Some ` fst ` set moves))
               (deepen fuel st2 b player moves tlim ds best1)"
    by (rule resOk_mono[OF Cons.IH]) (use b1 in auto)
  have res: "deepen fuel st b player moves tlim (d # ds) best =
     (if bs \<ge> WIN_SCORE then Some (best1, b, st1)
      else if of_int (t - startTime st2) > num_mul tlim lit_0_7 then Some (best1, b, st2)
      else deepen fuel st2 b player moves tlim ds best1)"
    using sr dn by (simp add: st0_def[symmetric] top_def[symmetric] best1_def Let_def)
  show ?case
    unfolding res using b1 rec by (simp add: resOk_def)
qed

lemma resOk_Some: "resOk b S (Some (m, b', st')) \<longleftrightarrow> b' = b \<and> m \<in> S"
  by (simp add: resOk_def)

lemma moves_nth0: "moves \<noteq> [] \<Longrightarrow> moves ! 0 \<in> set moves"
  by (cases moves) simp_all

lemma findBestMove_ok:
  assumes wf: "wf_board b" and fuel: "225 < fuel"
  shows "resOk b (answers b player 2) (findBestMove fuel st b player depth timeLimitMs advancedEval)"
proof -
  obtain t st0 where dn: "dateNow (st\<lparr> nodesSearched := 0 \<rparr>) = (t, st0)" by (metis surj_pair)
  define st1 where "st1 = st0\<lparr> startTime := t, timeLimit := timeLimitMs, timedOut := False,
                       useAdvancedEval := advancedEval \<rparr>"
  define moves where "moves = getOrderedMoves b player 2"
  define cands where "cands = generateCandidates b 2"
  have fm: "fst ` set moves = set cands"
    unfolding moves_def cands_def by (rule set_getOrderedMoves)
  have lm: "length moves = length cands"
    unfolding moves_def cands_def by (rule length_getOrderedMoves)
  have em: "\<forall>m \<in> set moves. emptyAt b (fst m)"
    unfolding moves_def using orderedMoves_empty by blast
  then have emf: "\<forall>c \<in> set (map fst moves). emptyAt b c" by simp
  have unf: "findBestMove fuel st b player depth timeLimitMs advancedEval =
     (if length moves = 0 then Some ((CENTER, CENTER), b, st1)
      else if length moves = 1 then Some (fst (moves ! 0), b, st1)
      else
        case probeWin b player (map fst moves) of
          (Some c, b1) \<Rightarrow> Some (c, b1, st1)
        | (None, b1) \<Rightarrow>
            case probeWin b1 (opponent player) (map fst moves) of
              (Some c, b2) \<Rightarrow> Some (c, b2, st1)
            | (None, b2) \<Rightarrow>
                case searchRoot fuel st1 b2 player depth (take (min (length moves) 20) moves)
                       (take (min (length moves) 20) moves ! 0) (- INF_N) of
                  None \<Rightarrow> None
                | Some (bestMove, bestScore, b3, st2) \<Rightarrow> Some (fst bestMove, b3, st2))"
    unfolding findBestMove_def dn st1_def moves_def Let_def prod.case ..
  show ?thesis
  proof (cases "length moves = 0")
    case True
    then have "cands = []" using lm by simp
    then show ?thesis
      unfolding unf using True by (simp add: resOk_Some answers_def cands_def[symmetric])
  next
    case ne: False
    then have cne: "cands \<noteq> []" using lm by auto
    show ?thesis
    proof (cases "length moves = 1")
      case True
      then obtain m where m: "moves = [m]" by (cases moves) auto
      then have "set cands = {fst m}" using fm by simp
      then show ?thesis
        unfolding unf using True cne m
        by (simp add: resOk_Some answers_def cands_def[symmetric])
    next
      case many: False
      have pw: "probeOk b player (map fst moves) (probeWin b player (map fst moves))"
        by (rule probeWin_ok[OF wf emf])
      show ?thesis
      proof (cases "fst (probeWin b player (map fst moves))")
        case (Some c)
        with pw have "probeWin b player (map fst moves) = (Some c, b)"
          and "c \<in> set cands" and "winsAt b player c"
          using fm by (auto simp: probeOk_def prod_eq_iff winsAt_def)
        then show ?thesis
          unfolding unf using ne many cne
          by (simp add: resOk_Some answers_def cands_def[symmetric])
      next
        case None
        with pw have p1: "probeWin b player (map fst moves) = (None, b)"
          and nowin: "\<forall>c \<in> set cands. \<not> winsAt b player c"
          using fm by (auto simp: probeOk_def prod_eq_iff winsAt_def)
        have pb: "probeOk b (opponent player) (map fst moves)
                    (probeWin b (opponent player) (map fst moves))"
          by (rule probeWin_ok[OF wf emf])
        show ?thesis
        proof (cases "fst (probeWin b (opponent player) (map fst moves))")
          case (Some c)
          with pb have "probeWin b (opponent player) (map fst moves) = (Some c, b)"
            and "c \<in> set cands"
            using fm by (auto simp: probeOk_def prod_eq_iff)
          then show ?thesis
            unfolding unf using ne many cne p1 nowin
            by (simp add: resOk_Some answers_def cands_def[symmetric])
        next
          case None
          with pb have p2: "probeWin b (opponent player) (map fst moves) = (None, b)"
            by (auto simp: probeOk_def prod_eq_iff)
          define top where "top = take (min (length moves) 20) moves"
          have tops: "set top \<subseteq> set moves" unfolding top_def by (rule set_take_subset)
          have "top \<noteq> []" using ne unfolding top_def by (cases moves) auto
          then have top0: "top ! 0 \<in> set moves" using tops moves_nth0 by blast
          have e: "\<forall>m \<in> set top. emptyAt b (fst m)" using tops em by blast
          have "rootOk b (insert (top ! 0) (set top))
                  (searchRoot fuel st1 b player depth top (top ! 0) (- INF_N))"
            by (rule searchRoot_ok[OF wf fuel e])
          then obtain bm bs st2 where
            sr: "searchRoot fuel st1 b player depth top (top ! 0) (- INF_N) = Some (bm, bs, b, st2)"
            and bm: "bm \<in> insert (top ! 0) (set top)"
            by (rule rootOkE)
          from bm top0 tops have "bm \<in> set moves" by auto
          then have "fst bm \<in> set cands" using fm by force
          then show ?thesis
            unfolding unf using ne many cne p1 p2 nowin sr
            by (simp add: resOk_Some answers_def cands_def[symmetric] top_def[symmetric])
        qed
      qed
    qed
  qed
qed

lemma findBestMoveIterative_ok:
  assumes wf: "wf_board b" and fuel: "225 < fuel"
  shows "resOk b (answers b player 2)
           (findBestMoveIterative fuel st b player maxDepth timeLimitMs advancedEval)"
proof -
  obtain t st0 where dn: "dateNow st = (t, st0)" by (metis surj_pair)
  define st1 where "st1 = st0\<lparr> startTime := t, timeLimit := timeLimitMs, timedOut := False,
                       useAdvancedEval := advancedEval \<rparr>"
  define moves where "moves = getOrderedMoves b player 2"
  define cands where "cands = generateCandidates b 2"
  have fm: "fst ` set moves = set cands"
    unfolding moves_def cands_def by (rule set_getOrderedMoves)
  have lm: "length moves = length cands"
    unfolding moves_def cands_def by (rule length_getOrderedMoves)
  have em: "\<forall>m \<in> set moves. emptyAt b (fst m)"
    unfolding moves_def using orderedMoves_empty by blast
  then have emf: "\<forall>c \<in> set (map fst moves). emptyAt b c" by simp
  have unf: "findBestMoveIterative fuel st b player maxDepth timeLimitMs advancedEval =
     (if length moves = 0 then Some ((CENTER, CENTER), b, st1)
      else
        case probeWin b player (map fst moves) of
          (Some c, b1) \<Rightarrow> Some (c, b1, st1)
        | (None, b1) \<Rightarrow>
            case probeWin b1 (opponent player) (map fst moves) of
              (Some c, b2) \<Rightarrow> Some (c, b2, st1)
            | (None, b2) \<Rightarrow>
                case deepen fuel st1 b2 player moves timeLimitMs [1 .. maxDepth] None of
                  None \<Rightarrow> None
                | Some (bestMove, b3, st2) \<Rightarrow>
                    Some (case bestMove of Some c \<Rightarrow> c | None \<Rightarrow> fst (moves ! 0), b3, st2))"
    unfolding findBestMoveIterative_def dn st1_def moves_def Let_def prod.case ..
  show ?thesis
  proof (cases "length moves = 0")
    case True
    then have "cands = []" using lm by simp
    then show ?thesis
      unfolding unf using True by (simp add: resOk_Some answers_def cands_def[symmetric])
  next
    case ne: False
    then have cne: "cands \<noteq> []" and mne: "moves \<noteq> []" using lm by auto
    have pw: "probeOk b player (map fst moves) (probeWin b player (map fst moves))"
      by (rule probeWin_ok[OF wf emf])
    show ?thesis
    proof (cases "fst (probeWin b player (map fst moves))")
      case (Some c)
      with pw have "probeWin b player (map fst moves) = (Some c, b)"
        and "c \<in> set cands" and "winsAt b player c"
        using fm by (auto simp: probeOk_def prod_eq_iff winsAt_def)
      then show ?thesis
        unfolding unf using ne cne
        by (simp add: resOk_Some answers_def cands_def[symmetric])
    next
      case None
      with pw have p1: "probeWin b player (map fst moves) = (None, b)"
        and nowin: "\<forall>c \<in> set cands. \<not> winsAt b player c"
        using fm by (auto simp: probeOk_def prod_eq_iff winsAt_def)
      have pb: "probeOk b (opponent player) (map fst moves)
                  (probeWin b (opponent player) (map fst moves))"
        by (rule probeWin_ok[OF wf emf])
      show ?thesis
      proof (cases "fst (probeWin b (opponent player) (map fst moves))")
        case (Some c)
        with pb have "probeWin b (opponent player) (map fst moves) = (Some c, b)"
          and "c \<in> set cands"
          using fm by (auto simp: probeOk_def prod_eq_iff)
        then show ?thesis
          unfolding unf using ne cne p1 nowin
          by (simp add: resOk_Some answers_def cands_def[symmetric])
      next
        case None
        with pb have p2: "probeWin b (opponent player) (map fst moves) = (None, b)"
          by (auto simp: probeOk_def prod_eq_iff)
        have "resOk b (insert None (Some ` fst ` set moves))
                (deepen fuel st1 b player moves timeLimitMs [1 .. maxDepth] None)"
          by (rule deepen_ok[OF wf fuel em mne])
        then obtain best st2 where
          dp: "deepen fuel st1 b player moves timeLimitMs [1 .. maxDepth] None = Some (best, b, st2)"
          and best: "best \<in> insert None (Some ` fst ` set moves)"
          by (rule resOkE)
        have "(case best of Some c \<Rightarrow> c | None \<Rightarrow> fst (moves ! 0)) \<in> set cands"
          using best moves_nth0[OF mne] fm by (auto split: option.splits)
        then show ?thesis
          unfolding unf using ne cne p1 p2 nowin dp
          by (simp add: resOk_Some answers_def cands_def[symmetric])
      qed
    qed
  qed
qed

text \<open>
  Claim C2. On a well-formed board, \<open>findBestMove\<close> and \<open>findBestMoveIterative\<close> return, and
  the board they return is the board they were given, for every player, depth, time limit,
  evaluator flag, engine state and clock: every stone placed by the probes and by the
  search is taken off again, also when the search times out. The search never nests deeper
  than the number of empty cells, so 226 levels are enough on a 15 by 15 board.
\<close>

theorem search_restores_board:
  assumes "wf_board b" "225 < fuel"
  shows "(\<exists>m st'. findBestMove fuel st b player depth timeLimitMs advancedEval = Some (m, b, st')) \<and>
         (\<exists>m st'. findBestMoveIterative fuel st b player maxDepth timeLimitMs advancedEval =
                    Some (m, b, st'))"
proof
  have "resOk b (answers b player 2) (findBestMove fuel st b player depth timeLimitMs advancedEval)"
    by (rule findBestMove_ok[OF assms])
  then show "\<exists>m st'. findBestMove fuel st b player depth timeLimitMs advancedEval = Some (m, b, st')"
    by (rule resOkE) blast
  have "resOk b (answers b player 2)
          (findBestMoveIterative fuel st b player maxDepth timeLimitMs advancedEval)"
    by (rule findBestMoveIterative_ok[OF assms])
  then show "\<exists>m st'. findBestMoveIterative fuel st b player maxDepth timeLimitMs advancedEval =
                    Some (m, b, st')"
    by (rule resOkE) blast
qed

lemma wf_threeBoard: "wf_board threeBoard"
  by code_simp

theorem search_restores_board_witness:
  "wf_board threeBoard \<and> (225::nat) < 226 \<and>
   (\<exists>m st'. findBestMove 226 idleState threeBoard BLACK 2 1000 False = Some (m, threeBoard, st')) \<and>
   (\<exists>m st'. findBestMoveIterative 226 idleState threeBoard BLACK 6 2000 True =
              Some (m, threeBoard, st'))"
proof -
  have f: "(225::nat) < 226" by simp
  show ?thesis
    using search_restores_board[OF wf_threeBoard f, where st = idleState and player = BLACK
            and depth = 2 and timeLimitMs = 1000 and advancedEval = False]
          search_restores_board[OF wf_threeBoard f, where st = idleState and player = BLACK
            and maxDepth = 6 and timeLimitMs = 2000 and advancedEval = True]
          wf_threeBoard f
    by blast
qed

subsection \<open>A board with an empty cell has a candidate\<close>

lemma flip_step:
  fixes P :: "int \<Rightarrow> bool"
  assumes "x \<le> y" "P x \<noteq> P y"
  shows "\<exists>k. x \<le> k \<and> k < y \<and> P k \<noteq> P (k + 1)"
  using assms
proof (induction y rule: int_ge_induct)
  case base
  then show ?case by simp
next
  case (step i)
  show ?case
  proof (cases "P i = P (i + 1)")
    case False
    with step.hyps show ?thesis by (intro exI[of _ i]) simp
  next
    case True
    with step.prems have "P x \<noteq> P i" by simp
    from step.IH[OF this] obtain k where "x \<le> k" "k < i" "P k \<noteq> P (k + 1)" by blast
    then show ?thesis by (intro exI[of _ k]) simp
  qed
qed

lemma flip_between:
  fixes P :: "int \<Rightarrow> bool"
  assumes "P x \<noteq> P y"
  shows "\<exists>k. min x y \<le> k \<and> k < max x y \<and> P k \<noteq> P (k + 1)"
proof (cases "x \<le> y")
  case True
  from flip_step[OF True assms] show ?thesis using True by (simp add: min_def max_def)
next
  case False
  then have "y \<le> x" by simp
  moreover from assms have "P y \<noteq> P x" by simp
  ultimately have "\<exists>k. y \<le> k \<and> k < x \<and> P k \<noteq> P (k + 1)" by (rule flip_step)
  then show ?thesis using False by (simp add: min_def max_def)
qed

lemma stone_next_to_empty:
  assumes e: "emptyAt b e" and s: "inBounds si sj" "bget b si sj \<noteq> EMPTY"
  shows "\<exists>c t. emptyAt b c \<and> inBounds (fst t) (snd t) \<and> bget b (fst t) (snd t) \<noteq> EMPTY \<and>
               \<bar>fst c - fst t\<bar> \<le> 1 \<and> \<bar>snd c - snd t\<bar> \<le> 1"
proof -
  obtain ei ej where ee: "e = (ei, ej)" by (cases e)
  have eb: "inBounds ei ej" and ev: "bget b ei ej = EMPTY"
    using e ee by (simp_all add: emptyAt_def)
  show ?thesis
  proof (cases "bget b si ej = EMPTY")
    case True
    define P where "P = (\<lambda>j. bget b si j = EMPTY)"
    have "P sj \<noteq> P ej" using True s(2) by (simp add: P_def)
    from flip_between[OF this] obtain k where
      k: "min sj ej \<le> k" "k < max sj ej" "P k \<noteq> P (k + 1)" by blast
    have kb: "inBounds si k" "inBounds si (k + 1)"
      using k(1,2) s(1) eb by (auto simp: inBounds_def)
    show ?thesis
    proof (cases "P k")
      case True
      with k(3) have "bget b si k = EMPTY" "bget b si (k + 1) \<noteq> EMPTY" by (simp_all add: P_def)
      with kb show ?thesis
        by (intro exI[of _ "(si, k)"] exI[of _ "(si, k + 1)"]) (simp add: emptyAt_def)
    next
      case False
      with k(3) have "bget b si (k + 1) = EMPTY" "bget b si k \<noteq> EMPTY" by (simp_all add: P_def)
      with kb show ?thesis
        by (intro exI[of _ "(si, k + 1)"] exI[of _ "(si, k)"]) (simp add: emptyAt_def)
    qed
  next
    case False
    define P where "P = (\<lambda>i. bget b i ej = EMPTY)"
    have "P si \<noteq> P ei" using False ev by (simp add: P_def)
    from flip_between[OF this] obtain k where
      k: "min si ei \<le> k" "k < max si ei" "P k \<noteq> P (k + 1)" by blast
    have kb: "inBounds k ej" "inBounds (k + 1) ej"
      using k(1,2) s(1) eb by (auto simp: inBounds_def)
    show ?thesis
    proof (cases "P k")
      case True
      with k(3) have "bget b k ej = EMPTY" "bget b (k + 1) ej \<noteq> EMPTY" by (simp_all add: P_def)
      with kb show ?thesis
        by (intro exI[of _ "(k, ej)"] exI[of _ "(k + 1, ej)"]) (simp add: emptyAt_def)
    next
      case False
      with k(3) have "bget b (k + 1) ej = EMPTY" "bget b k ej \<noteq> EMPTY" by (simp_all add: P_def)
      with kb show ?thesis
        by (intro exI[of _ "(k + 1, ej)"] exI[of _ "(k, ej)"]) (simp add: emptyAt_def)
    qed
  qed
qed

lemma in_ALL_CELLS_iff: "s \<in> set ALL_CELLS \<longleftrightarrow> inBounds (fst s) (snd s)"
  using in_ALL_CELLS[of "fst s" "snd s"] by simp

lemma candidates_nonempty:
  assumes "emptyAt b e" "1 \<le> r"
  shows "generateCandidates b r \<noteq> []"
proof (cases "\<exists>s \<in> set ALL_CELLS. bget b (fst s) (snd s) \<noteq> EMPTY")
  case False
  then have "set (generateCandidates b r) = {(CENTER, CENTER)}"
    by (simp add: set_generateCandidates)
  then show ?thesis by auto
next
  case True
  then obtain s where s: "inBounds (fst s) (snd s)" "bget b (fst s) (snd s) \<noteq> EMPTY"
    by (auto simp: in_ALL_CELLS_iff)
  from stone_next_to_empty[OF assms(1) s] obtain c t where
    c: "emptyAt b c" and t: "inBounds (fst t) (snd t)" "bget b (fst t) (snd t) \<noteq> EMPTY"
    and d: "\<bar>fst c - fst t\<bar> \<le> 1" "\<bar>snd c - snd t\<bar> \<le> 1" by blast
  have "nearStone b r ALL_CELLS c"
    unfolding nearStone_def using t d assms(2)
    by (intro bexI[of _ t]) (auto simp: in_ALL_CELLS_iff)
  with c True have "c \<in> set (generateCandidates b r)"
    by (simp add: set_generateCandidates)
  then show ?thesis by auto
qed

lemma answers_empty:
  assumes "emptyAt b e" "1 \<le> r" "m \<in> answers b player r"
  shows "emptyAt b m"
  using assms candidates_nonempty[OF assms(1,2)] candidates_empty[of m b r]
  by (simp add: answers_def)

subsection \<open>The Easy policy and the opening book\<close>

lemma bset_empty_id: "bget b i j = EMPTY \<Longrightarrow> bset b i j EMPTY = b"
  unfolding bget_def bset_def by (metis list_update_id)

lemma easyBlock_ok:
  assumes "wf_board b"
  shows "\<forall>c \<in> set cs. emptyAt b c \<Longrightarrow>
         fst (snd (easyBlock st b opp cs)) = b \<and>
         (\<forall>c. fst (easyBlock st b opp cs) = Some c \<longrightarrow> c \<in> set cs)"
proof (induction cs arbitrary: st)
  case Nil
  show ?case by simp
next
  case (Cons a cs)
  have r: "bset (bset b (fst a) (snd a) opp) (fst a) (snd a) EMPTY = b"
    using Cons.prems assms by (simp add: emptyAt_restore)
  have r2: "bset b (fst a) (snd a) EMPTY = b"
    using Cons.prems by (simp add: emptyAt_def bset_empty_id)
  have e: "\<forall>c \<in> set cs. emptyAt b c" using Cons.prems by simp
  obtain x st' where mr: "mathRandom st = (x, st')" by (metis surj_pair)
  have "easyBlock st b opp (a # cs) =
     (if checkWin (bset b (fst a) (snd a) opp) opp then
        (if x < 7 / 10 then (Some a, b, st') else easyBlock st' b opp cs)
      else easyBlock st b opp cs)"
    by (simp add: Let_def r r2 mr)
  then show ?case using Cons.IH[OF e] by auto
qed

lemma pickWeighted_in: "pickWeighted rand ws = Some c \<Longrightarrow> c \<in> fst ` set ws"
  by (induction ws arbitrary: rand) (auto simp: Let_def split: if_splits)

lemma easyMove_ok:
  assumes wf: "wf_board b"
  shows "fst (snd (easyMove st b player)) = b \<and> fst (easyMove st b player) \<in> answers b player 1"
proof -
  define cands where "cands = generateCandidates b 1"
  have em: "\<forall>c \<in> set cands. emptyAt b c"
    unfolding cands_def using candidates_empty by blast
  define weighted where "weighted = map (\<lambda>(x, y). ((x, y),
       (of_int (max 1 (15 - (\<bar>x - CENTER\<bar> + \<bar>y - CENTER\<bar>))) :: rat))) cands"
  have fw: "map fst weighted = cands"
    unfolding weighted_def by (induction cands) auto
  define total where "total = foldl (\<lambda>sum cw. sum + snd cw) 0 weighted"
  have unf: "easyMove st b player =
     (if length cands = 0 then ((CENTER, CENTER), b, st)
      else
        case probeWin b player cands of
          (Some c, b1) \<Rightarrow> (c, b1, st)
        | (None, b1) \<Rightarrow>
            case easyBlock st b1 (opponent player) cands of
              (Some c, b2, st1) \<Rightarrow> (c, b2, st1)
            | (None, b2, st1) \<Rightarrow>
                case mathRandom st1 of (r, st2) \<Rightarrow>
                     (case pickWeighted (r * total) weighted of
                        Some c \<Rightarrow> (c, b2, st2)
                      | None \<Rightarrow> (fst (weighted ! 0), b2, st2)))"
    unfolding easyMove_def cands_def total_def weighted_def Let_def ..
  show ?thesis
  proof (cases "length cands = 0")
    case True
    then show ?thesis unfolding unf by (simp add: answers_def cands_def[symmetric])
  next
    case ne: False
    then have cne: "cands \<noteq> []" by auto
    have pw: "probeOk b player cands (probeWin b player cands)"
      by (rule probeWin_ok[OF wf em])
    show ?thesis
    proof (cases "fst (probeWin b player cands)")
      case (Some c)
      with pw have "probeWin b player cands = (Some c, b)"
        and "c \<in> set cands" and "winsAt b player c"
        by (auto simp: probeOk_def prod_eq_iff winsAt_def)
      then show ?thesis
        unfolding unf using ne cne by (simp add: answers_def cands_def[symmetric])
    next
      case None
      with pw have p1: "probeWin b player cands = (None, b)"
        and nowin: "\<forall>c \<in> set cands. \<not> winsAt b player c"
        by (auto simp: probeOk_def prod_eq_iff winsAt_def)
      have inA: "\<And>m. m \<in> set cands \<Longrightarrow> m \<in> answers b player 1"
        using nowin cne by (simp add: answers_def cands_def[symmetric])
      obtain r b2 st1 where eb: "easyBlock st b (opponent player) cands = (r, b2, st1)"
        by (metis prod_cases3)
      from easyBlock_ok[OF wf em, of st "opponent player"] eb
      have b2: "b2 = b" and rin: "\<forall>c. r = Some c \<longrightarrow> c \<in> set cands" by simp_all
      show ?thesis
      proof (cases r)
        case (Some c)
        with rin have "c \<in> set cands" by simp
        then show ?thesis
          unfolding unf using ne p1 eb b2 Some inA by simp
      next
        case None
        obtain x st2 where mr: "mathRandom st1 = (x, st2)" by (metis surj_pair)
        have w0: "fst (weighted ! 0) \<in> set cands"
          using cne fw by (cases weighted) auto
        have pk: "\<And>c. pickWeighted (x * total) weighted = Some c \<Longrightarrow> c \<in> set cands"
          using pickWeighted_in fw by (metis list.set_map)
        show ?thesis
          unfolding unf using ne p1 eb b2 None mr inA w0 pk
          by (auto split: option.splits)
      qed
    qed
  qed
qed

lemma pickRandom_in:
  assumes "0 \<le> rnd st (draws st)" "rnd st (draws st) < 1" "xs \<noteq> []"
  shows "fst (pickRandom st xs) \<in> set xs"
proof -
  define r where "r = rnd st (draws st)"
  define n where "n = length xs"
  have n: "0 < n" using assms(3) by (simp add: n_def)
  have "r * of_nat n < of_nat n" using assms(2) n by (simp add: r_def)
  then have lt: "\<lfloor>r * of_nat n\<rfloor> < int n" by (simp add: floor_less_iff)
  have "0 \<le> r * of_nat n" using assms(1) by (simp add: r_def)
  then have ge: "0 \<le> \<lfloor>r * of_nat n\<rfloor>" by simp
  from lt ge have "nat \<lfloor>r * of_nat n\<rfloor> < n" by linarith
  then show ?thesis
    unfolding pickRandom_def mathRandom_def r_def n_def by simp
qed

lemma countStones_zero: "countStones b = 0 \<Longrightarrow> inBounds i j \<Longrightarrow> bget b i j = EMPTY"
  unfolding countStones_def using in_ALL_CELLS[of i j]
  by (auto simp: filter_empty_conv)

lemma inBounds_CENTER: "inBounds CENTER CENTER"
  by (simp add: inBounds_def CENTER_def BOARD_SIZE_def)

lemma knightGenerator_ok:
  assumes "0 \<le> rnd st (draws st)" "rnd st (draws st) < 1"
  shows "\<forall>m. fst (knightGenerator b player st) = Some m \<longrightarrow> emptyAt b m"
proof -
  define okc where "okc = filter (\<lambda>(x, y). x \<ge> 0 \<and> x < BOARD_SIZE \<and> y \<ge> 0 \<and> y < BOARD_SIZE \<and>
                                     bget b x y = EMPTY) knightMoves"
  have v: "\<forall>m \<in> set okc. emptyAt b m"
    unfolding okc_def emptyAt_def inBounds_def by auto
  show ?thesis
  proof (cases "okc = []")
    case True
    then show ?thesis
      unfolding knightGenerator_def okc_def[symmetric] by (simp add: Let_def)
  next
    case False
    from pickRandom_in[OF assms False] v have "emptyAt b (fst (pickRandom st okc))" by blast
    with False show ?thesis
      unfolding knightGenerator_def okc_def[symmetric]
      by (auto simp: Let_def split: prod.splits)
  qed
qed

lemma diagonal_pick_ok:
  assumes "0 \<le> rnd st (draws st)" "rnd st (draws st) < 1"
    and "okc = filter (\<lambda>(x, y). bget b x y = EMPTY)
             [(CENTER - 1, CENTER - 1), (CENTER - 1, CENTER + 1),
              (CENTER + 1, CENTER - 1), (CENTER + 1, CENTER + 1)]"
    and "okc \<noteq> []"
  shows "emptyAt b (fst (pickRandom st okc))"
proof -
  have v: "\<forall>m \<in> set okc. emptyAt b m"
    unfolding assms(3) emptyAt_def inBounds_def
    by (auto simp: CENTER_def BOARD_SIZE_def)
  from pickRandom_in[OF assms(1,2,4)] v show ?thesis by blast
qed

lemma consultBook_ok:
  assumes "0 \<le> rnd st (draws st)" "rnd st (draws st) < 1"
  shows "\<forall>m. fst (consultBook OPENING_BOOK st b player) = Some m \<longrightarrow> emptyAt b m"
proof -
  define okc where "okc = filter (\<lambda>(x, y). bget b x y = EMPTY)
             [(CENTER - 1, CENTER - 1), (CENTER - 1, CENTER + 1),
              (CENTER + 1, CENTER - 1), (CENTER + 1, CENTER + 1)]"
  have c0: "countStones b = 0 \<Longrightarrow> emptyAt b (CENTER, CENTER)"
    using countStones_zero[OF _ inBounds_CENTER] by (simp add: emptyAt_def inBounds_CENTER)
  have c1: "bget b CENTER CENTER = EMPTY \<Longrightarrow> emptyAt b (CENTER, CENTER)"
    by (simp add: emptyAt_def inBounds_CENTER)
  have c2: "okc \<noteq> [] \<Longrightarrow> emptyAt b (fst (pickRandom st okc))"
    by (rule diagonal_pick_ok[OF assms okc_def])
  note kg = knightGenerator_ok[OF assms, of b player]
  show ?thesis
    unfolding OPENING_BOOK_def
    using c0 c1 c2 kg
    by (auto simp: Let_def okc_def[symmetric] simp del: filter.simps
             split: prod.splits option.splits if_splits)
qed

lemma consultBook_late:
  "2 < countStones b \<Longrightarrow> consultBook OPENING_BOOK st b player = (None, st)"
  unfolding OPENING_BOOK_def by simp

lemma wf_board_length: "wf_board b \<Longrightarrow> length b \<noteq> 0"
  by (simp add: wf_board_def board_ok_def BOARD_SIZE_def)

lemma findBestMove_empty_cell:
  assumes "wf_board b" "emptyAt b e" "225 < fuel"
  shows "\<exists>m st'. findBestMove fuel st b player depth timeLimitMs advancedEval = Some (m, b, st') \<and>
           emptyAt b m"
proof -
  have "resOk b (answers b player 2) (findBestMove fuel st b player depth timeLimitMs advancedEval)"
    by (rule findBestMove_ok[OF assms(1,3)])
  then obtain m st' where
    "findBestMove fuel st b player depth timeLimitMs advancedEval = Some (m, b, st')"
    "m \<in> answers b player 2" by (rule resOkE)
  moreover from this have "emptyAt b m" using answers_empty[OF assms(2), where r = 2] by simp
  ultimately show ?thesis by blast
qed

lemma masterMove_empty_cell:
  assumes "wf_board b" "emptyAt b e" "225 < fuel" "0 \<le> rnd st (draws st) \<and> rnd st (draws st) < 1"
  shows "\<exists>m st'. masterMove fuel st b player = Some (m, b, st') \<and> emptyAt b m"
proof -
  obtain r st1 where cb: "consultBook OPENING_BOOK st b player = (r, st1)" by (metis surj_pair)
  show ?thesis
  proof (cases r)
    case (Some m)
    with cb consultBook_ok[of st b player] assms(4) have "emptyAt b m" by simp
    with cb Some show ?thesis by (simp add: masterMove_def)
  next
    case None
    have "resOk b (answers b player 2)
            (findBestMoveIterative fuel (newMinimaxEngine st1) b player 6 2000 True)"
      by (rule findBestMoveIterative_ok[OF assms(1,3)])
    then obtain m st' where
      "findBestMoveIterative fuel (newMinimaxEngine st1) b player 6 2000 True = Some (m, b, st')"
      "m \<in> answers b player 2" by (rule resOkE)
    moreover from this have "emptyAt b m" using answers_empty[OF assms(2), where r = 2] by simp
    ultimately show ?thesis using cb None by (simp add: masterMove_def)
  qed
qed

lemma easyMove_empty_cell:
  assumes "wf_board b" "emptyAt b e"
  shows "\<exists>m st'. easyMove st b player = (m, b, st') \<and> emptyAt b m"
proof -
  obtain m b' st' where em: "easyMove st b player = (m, b', st')" by (metis prod_cases3)
  with easyMove_ok[OF assms(1), of st player] have "b' = b" "m \<in> answers b player 1" by simp_all
  moreover from this have "emptyAt b m" using answers_empty[OF assms(2), where r = 1] by simp
  ultimately show ?thesis using em by blast
qed

text \<open>
  Claim C3. On a well-formed board with at least one empty cell, \<open>getMove\<close> returns, for
  every player and every stored difficulty, and the cell it returns is on the board and
  empty on the input board (which is also the board after the call). \<open>Math.random()\<close> is any
  sequence of values in [0, 1); the clock is arbitrary.
\<close>

theorem getMove_returns_empty_cell:
  assumes "wf_board b" "emptyAt b e" "225 < fuel" "\<forall>n. 0 \<le> rnd st n \<and> rnd st n < 1"
  shows "\<exists>m st'. getMove difficulty fuel st b player = Some (m, b, st') \<and> emptyAt b m"
proof -
  note l = wf_board_length[OF assms(1)]
  note fb = findBestMove_empty_cell[OF assms(1,2,3)]
  have r: "0 \<le> rnd st (draws st) \<and> rnd st (draws st) < 1" using assms(4) by blast
  note mm = masterMove_empty_cell[OF assms(1,2,3) r, of player]
  note ez = easyMove_empty_cell[OF assms(1,2), of st player]
  show ?thesis
    unfolding getMove_def mediumMove_def hardMove_def
    using l fb mm ez by auto
qed

theorem getMove_returns_empty_cell_witness:
  "wf_board threeBoard \<and> emptyAt threeBoard (0, 0) \<and> (225::nat) < 226 \<and>
   (\<forall>n. 0 \<le> rnd idleState n \<and> rnd idleState n < 1) \<and>
   (\<exists>m st'. getMove ''master'' 226 idleState threeBoard BLACK = Some (m, threeBoard, st') \<and>
             emptyAt threeBoard m)"
proof -
  have e: "emptyAt threeBoard (0, 0)" by code_simp
  have f: "(225::nat) < 226" by simp
  have r: "\<forall>n. 0 \<le> rnd idleState n \<and> rnd idleState n < 1" by (simp add: idleState_def)
  show ?thesis
    using getMove_returns_empty_cell[OF wf_threeBoard e f r, of "''master''" BLACK]
          wf_threeBoard e f r
    by blast
qed

subsection \<open>What \<open>checkWin\<close> decides\<close>

lemma countAhead_le: "countAhead b p i j dx dy ks n \<le> n + length ks"
proof (induction ks arbitrary: n)
  case Nil
  show ?case by simp
next
  case (Cons k ks)
  show ?case using Cons.IH[of "n + 1"] by (simp add: Let_def)
qed

lemma countAhead_full:
  "countAhead b p i j dx dy ks n = n + length ks \<longleftrightarrow>
     (\<forall>k \<in> set ks. inBounds (i + dx * k) (j + dy * k) \<and> bget b (i + dx * k) (j + dy * k) = p)"
proof (induction ks arbitrary: n)
  case Nil
  show ?case by simp
next
  case (Cons k ks)
  show ?case
  proof (cases "inBounds (i + dx * k) (j + dy * k) \<and> bget b (i + dx * k) (j + dy * k) = p")
    case True
    then show ?thesis using Cons.IH[of "n + 1"] by (simp add: Let_def)
  next
    case False
    then show ?thesis by (auto simp: Let_def)
  qed
qed

lemma countAhead_five:
  "5 \<le> countAhead b p i j dx dy [1 .. 4] 1 \<longleftrightarrow>
     (\<forall>k \<in> {1 .. 4}. inBounds (i + dx * k) (j + dy * k) \<and> bget b (i + dx * k) (j + dy * k) = p)"
proof -
  have l: "length [1 .. (4::int)] = 4" by simp
  have "5 \<le> countAhead b p i j dx dy [1 .. 4] 1 \<longleftrightarrow> countAhead b p i j dx dy [1 .. 4] 1 = 1 + length [1 .. (4::int)]"
    using countAhead_le[of b p i j dx dy "[1 .. 4]" 1] unfolding l by auto
  then show ?thesis unfolding countAhead_full by simp
qed

lemma fiveAt_split:
  "fiveAt b p i j dx dy \<longleftrightarrow>
     inBounds i j \<and> bget b i j = p \<and>
     (\<forall>k \<in> {1 .. 4}. inBounds (i + dx * k) (j + dy * k) \<and> bget b (i + dx * k) (j + dy * k) = p)"
proof -
  have s: "{0 .. 4 :: int} = insert 0 {1 .. 4}" by auto
  show ?thesis unfolding fiveAt_def s by simp
qed

lemma checkWin_iff:
  "checkWin b p \<longleftrightarrow> (\<exists>i j. \<exists>d \<in> set DIRECTIONS. fiveAt b p i j (fst d) (snd d))"
proof
  assume "checkWin b p"
  then obtain c where c: "c \<in> set ALL_CELLS"
    and h: "case c of (i, j) \<Rightarrow> bget b i j = p \<and>
              list_ex (\<lambda>(dx, dy). countAhead b p i j dx dy [1 .. 4] 1 \<ge> 5) DIRECTIONS"
    unfolding checkWin_def list_ex_iff by blast
  obtain i j where ce: "c = (i, j)" by (cases c)
  from h ce have v: "bget b i j = p"
    and "list_ex (\<lambda>(dx, dy). countAhead b p i j dx dy [1 .. 4] 1 \<ge> 5) DIRECTIONS" by simp_all
  then obtain d where d: "d \<in> set DIRECTIONS"
    and g: "case d of (dx, dy) \<Rightarrow> countAhead b p i j dx dy [1 .. 4] 1 \<ge> 5"
    unfolding list_ex_iff by blast
  from g have "5 \<le> countAhead b p i j (fst d) (snd d) [1 .. 4] 1" by (cases d) simp
  moreover have "inBounds i j" using c ce by (simp add: in_ALL_CELLS)
  ultimately have "fiveAt b p i j (fst d) (snd d)"
    using v unfolding fiveAt_split countAhead_five by simp
  with d show "\<exists>i j. \<exists>d \<in> set DIRECTIONS. fiveAt b p i j (fst d) (snd d)" by blast
next
  assume "\<exists>i j. \<exists>d \<in> set DIRECTIONS. fiveAt b p i j (fst d) (snd d)"
  then obtain i j d where d: "d \<in> set DIRECTIONS" and f: "fiveAt b p i j (fst d) (snd d)" by blast
  from f have ib: "inBounds i j" and v: "bget b i j = p"
    and c5: "5 \<le> countAhead b p i j (fst d) (snd d) [1 .. 4] 1"
    unfolding fiveAt_split countAhead_five by simp_all
  have "(i, j) \<in> set ALL_CELLS" using ib by (simp add: in_ALL_CELLS)
  moreover have "case (i, j) of (i, j) \<Rightarrow> bget b i j = p \<and>
              list_ex (\<lambda>(dx, dy). countAhead b p i j dx dy [1 .. 4] 1 \<ge> 5) DIRECTIONS"
    using v c5 d unfolding list_ex_iff by (auto intro!: bexI[of _ d] simp: case_prod_beta)
  ultimately show "checkWin b p"
    unfolding checkWin_def list_ex_iff by blast
qed

subsection \<open>A winning placement is a candidate\<close>

lemma dir_props:
  "d \<in> set DIRECTIONS \<Longrightarrow> \<bar>fst d\<bar> \<le> 1 \<and> \<bar>snd d\<bar> \<le> 1 \<and> (fst d \<noteq> 0 \<or> snd d \<noteq> 0)"
  by (auto simp: DIRECTIONS_def)

lemma countStones_card:
  "countStones b = card {x \<in> set ALL_CELLS. bget b (fst x) (snd x) \<noteq> EMPTY}"
proof -
  have "distinct (filter (\<lambda>(i, j). bget b i j \<noteq> EMPTY) ALL_CELLS)"
    using distinct_ALL_CELLS by simp
  then have "countStones b = card (set (filter (\<lambda>(i, j). bget b i j \<noteq> EMPTY) ALL_CELLS))"
    unfolding countStones_def by (rule distinct_card[symmetric])
  also have "set (filter (\<lambda>(i, j). bget b i j \<noteq> EMPTY) ALL_CELLS) =
             {x \<in> set ALL_CELLS. bget b (fst x) (snd x) \<noteq> EMPTY}"
    by (auto simp: case_prod_beta)
  finally show ?thesis .
qed

lemma fiveAt_bset:
  assumes wf: "wf_board b" and e: "emptyAt b c"
    and f: "\<forall>k \<in> {0 .. 4}. inBounds (i + dx * k) (j + dy * k) \<and>
              ((i + dx * k, j + dy * k) \<noteq> c \<longrightarrow> bget b (i + dx * k) (j + dy * k) = p)"
  shows "fiveAt (bset b (fst c) (snd c) p) p i j dx dy"
  unfolding fiveAt_def
proof
  fix k :: int assume k: "k \<in> {0 .. 4}"
  with f have ib: "inBounds (i + dx * k) (j + dy * k)"
    and v: "(i + dx * k, j + dy * k) \<noteq> c \<longrightarrow> bget b (i + dx * k) (j + dy * k) = p" by blast+
  have cb: "inBounds (fst c) (snd c)" using e by (simp add: emptyAt_def)
  have "bget (bset b (fst c) (snd c) p) (i + dx * k) (j + dy * k) = p"
    using v by (auto simp: bget_bset[OF wf cb ib] prod_eq_iff)
  with ib show "inBounds (i + dx * k) (j + dy * k) \<and>
        bget (bset b (fst c) (snd c) p) (i + dx * k) (j + dy * k) = p" by simp
qed

lemma winning_candidate:
  assumes wf: "wf_board b" and p: "p \<noteq> EMPTY" and e: "emptyAt b c" and w: "winsAt b p c"
    and r: "1 \<le> r"
  shows "\<exists>c' \<in> set (generateCandidates b r). winsAt b p c'" and "2 < countStones b"
proof -
  from w obtain i j d where d: "d \<in> set DIRECTIONS"
    and f: "fiveAt (bset b (fst c) (snd c) p) p i j (fst d) (snd d)"
    unfolding winsAt_def checkWin_iff by blast
  define dx where "dx = fst d"
  define dy where "dy = snd d"
  note dp = dir_props[OF d, folded dx_def dy_def]
  define cell where "cell = (\<lambda>k. (i + dx * k, j + dy * k))"
  have cb: "inBounds (fst c) (snd c)" and cv: "bget b (fst c) (snd c) = EMPTY"
    using e by (simp_all add: emptyAt_def)
  have inj: "\<And>k k'. cell k = cell k' \<Longrightarrow> k = k'"
    using dp by (auto simp: cell_def)
  have cells: "\<forall>k \<in> {0 .. 4}. inBounds (fst (cell k)) (snd (cell k)) \<and>
                 (cell k \<noteq> c \<longrightarrow> bget b (fst (cell k)) (snd (cell k)) = p)"
  proof
    fix k :: int assume k: "k \<in> {0 .. 4}"
    with f have ib: "inBounds (i + dx * k) (j + dy * k)"
      and v: "bget (bset b (fst c) (snd c) p) (i + dx * k) (j + dy * k) = p"
      unfolding fiveAt_def dx_def dy_def by blast+
    from v have "cell k \<noteq> c \<longrightarrow> bget b (i + dx * k) (j + dy * k) = p"
      by (auto simp: bget_bset[OF wf cb ib] cell_def prod_eq_iff split: if_splits)
    with ib show "inBounds (fst (cell k)) (snd (cell k)) \<and>
                 (cell k \<noteq> c \<longrightarrow> bget b (fst (cell k)) (snd (cell k)) = p)"
      by (simp add: cell_def)
  qed
  have stone: "\<And>k. k \<in> {0 .. 4} \<Longrightarrow> cell k \<noteq> c \<Longrightarrow>
                 cell k \<in> {x \<in> set ALL_CELLS. bget b (fst x) (snd x) \<noteq> EMPTY}"
    using cells p by (auto simp: in_ALL_CELLS_iff)
  define K where "K = {k \<in> {0 .. 4 :: int}. cell k \<noteq> c}"
  have cardK: "4 \<le> card K"
  proof (cases "\<exists>k0 \<in> {0 .. 4}. cell k0 = c")
    case True
    then obtain k0 where k0: "k0 \<in> {0 .. 4}" "cell k0 = c" by blast
    have "K = {0 .. 4} - {k0}" unfolding K_def using k0 inj by auto
    then show ?thesis using k0(1) by simp
  next
    case False
    then have "K = {0 .. 4}" unfolding K_def by auto
    then show ?thesis by simp
  qed
  have "inj_on cell K" using inj by (auto simp: inj_on_def)
  then have "card (cell ` K) = card K" by (rule card_image)
  moreover have "cell ` K \<subseteq> {x \<in> set ALL_CELLS. bget b (fst x) (snd x) \<noteq> EMPTY}"
    using stone unfolding K_def by blast
  then have "card (cell ` K) \<le> card {x \<in> set ALL_CELLS. bget b (fst x) (snd x) \<noteq> EMPTY}"
    by (intro card_mono) simp_all
  ultimately show "2 < countStones b" using cardK unfolding countStones_card by simp
  have someStone: "\<exists>s \<in> set ALL_CELLS. bget b (fst s) (snd s) \<noteq> EMPTY"
  proof -
    have "K \<noteq> {}" using cardK by auto
    then obtain k where "k \<in> K" by blast
    then have "cell k \<in> {x \<in> set ALL_CELLS. bget b (fst x) (snd x) \<noteq> EMPTY}"
      using stone unfolding K_def by blast
    then show ?thesis by blast
  qed
  show "\<exists>c' \<in> set (generateCandidates b r). winsAt b p c'"
  proof (cases "\<exists>k0 \<in> {0 .. 4}. cell k0 = c")
    case True
    then obtain k0 where k0: "k0 \<in> {0 .. 4}" "cell k0 = c" by blast
    define k1 where "k1 = (if k0 < 4 then k0 + 1 else k0 - 1)"
    have k1: "k1 \<in> {0 .. 4}" "k1 \<noteq> k0" "\<bar>k0 - k1\<bar> = 1"
      using k0(1) unfolding k1_def by auto
    have "cell k1 \<noteq> c" using inj[of k1 k0] k1(2) k0(2) by auto
    with stone[OF k1(1)] have t: "cell k1 \<in> set ALL_CELLS"
      "bget b (fst (cell k1)) (snd (cell k1)) \<noteq> EMPTY" by simp_all
    have "fst c - fst (cell k1) = dx * (k0 - k1)" "snd c - snd (cell k1) = dy * (k0 - k1)"
      unfolding k0(2)[symmetric] cell_def by (simp_all add: algebra_simps)
    then have "\<bar>fst c - fst (cell k1)\<bar> \<le> 1" "\<bar>snd c - snd (cell k1)\<bar> \<le> 1"
      using dp k1(3) by (simp_all add: abs_mult)
    then have "nearStone b r ALL_CELLS c"
      unfolding nearStone_def using t r by (intro bexI[of _ "cell k1"]) auto
    with e someStone have "c \<in> set (generateCandidates b r)"
      by (simp add: set_generateCandidates)
    with w show ?thesis by blast
  next
    case False
    from candidates_nonempty[OF e r] obtain c' where c': "c' \<in> set (generateCandidates b r)"
      by (cases "generateCandidates b r") auto
    then have e': "emptyAt b c'" by (rule candidates_empty)
    have "\<forall>k \<in> {0 .. 4}. inBounds (i + dx * k) (j + dy * k) \<and>
              ((i + dx * k, j + dy * k) \<noteq> c' \<longrightarrow> bget b (i + dx * k) (j + dy * k) = p)"
      using cells False by (auto simp: cell_def)
    from fiveAt_bset[OF wf e' this] d have "winsAt b p c'"
      unfolding winsAt_def checkWin_iff dx_def dy_def by blast
    with c' show ?thesis by blast
  qed
qed

lemma answers_win:
  assumes "wf_board b" "player \<noteq> EMPTY" "emptyAt b c" "winsAt b player c" "1 \<le> r"
    and "m \<in> answers b player r"
  shows "emptyAt b m \<and> winsAt b player m"
  using winning_candidate(1)[OF assms(1-5)] assms(6) answers_empty[OF assms(3,5,6)]
  by (simp add: answers_def)

text \<open>
  What the probes of the four tiers deliver. When some placement of the acting player
  makes \<open>checkWin\<close> true, \<open>getMove\<close> at every difficulty returns an empty cell whose
  placement makes \<open>checkWin\<close> true for that player, whatever the depth, the clock and the
  random values: the answer comes from the probe before any search.
\<close>

lemma getMove_takes_checkWin_cell:
  assumes "wf_board b" "player \<noteq> EMPTY" "emptyAt b c" "winsAt b player c" "225 < fuel"
  shows "\<exists>m st'. getMove difficulty fuel st b player = Some (m, b, st') \<and>
           emptyAt b m \<and> winsAt b player m"
proof -
  note l = wf_board_length[OF assms(1)]
  have one: "(1::int) \<le> 1" and two: "(1::int) \<le> 2" by simp_all
  note a1 = answers_win[OF assms(1-4) one]
  note a2 = answers_win[OF assms(1-4) two]
  have fb: "\<exists>m st'. findBestMove fuel s b player depth timeLimitMs advancedEval = Some (m, b, st') \<and>
           emptyAt b m \<and> winsAt b player m" for s depth timeLimitMs advancedEval
  proof -
    have "resOk b (answers b player 2) (findBestMove fuel s b player depth timeLimitMs advancedEval)"
      by (rule findBestMove_ok[OF assms(1,5)])
    then obtain m st' where
      "findBestMove fuel s b player depth timeLimitMs advancedEval = Some (m, b, st')"
      "m \<in> answers b player 2" by (rule resOkE)
    with a2 show ?thesis by blast
  qed
  have mm: "\<exists>m st'. masterMove fuel st b player = Some (m, b, st') \<and>
           emptyAt b m \<and> winsAt b player m"
  proof -
    have cb: "consultBook OPENING_BOOK st b player = (None, st)"
      by (rule consultBook_late) (rule winning_candidate(2)[OF assms(1-4) one])
    have "resOk b (answers b player 2)
            (findBestMoveIterative fuel (newMinimaxEngine st) b player 6 2000 True)"
      by (rule findBestMoveIterative_ok[OF assms(1,5)])
    then obtain m st' where
      "findBestMoveIterative fuel (newMinimaxEngine st) b player 6 2000 True = Some (m, b, st')"
      "m \<in> answers b player 2" by (rule resOkE)
    with a2 cb show ?thesis by (simp add: masterMove_def)
  qed
  have ez: "\<exists>m st'. easyMove st b player = (m, b, st') \<and> emptyAt b m \<and> winsAt b player m"
  proof -
    obtain m b' st' where em: "easyMove st b player = (m, b', st')" by (metis prod_cases3)
    with easyMove_ok[OF assms(1), of st player] have "b' = b" "m \<in> answers b player 1" by simp_all
    with a1 em show ?thesis by blast
  qed
  show ?thesis
    unfolding getMove_def mediumMove_def hardMove_def
    using l fb mm ez by auto
qed

text \<open>
  Claim C4, evaluated on \<open>overBoard\<close>, where black has an open four and a placement at
  (7, 10) completes five in a row: the game engine, with the overline flag off, declares
  black the winner there. At every tier \<open>getMove\<close> returns (7, 5) instead. That placement
  makes six in a row; the \<open>checkWin\<close> of ai.js, which the probes use, takes it for a win,
  and the game engine does not: the game goes on with no winner.
\<close>

theorem getMove_completes_overline:
  "map_option (res_winner \<circ> fst) (placeStone False overEngine 10 7) = Some (Some 1) \<and>
   map_option fst (getMove ''easy'' 226 idleState overBoard BLACK) = Some (7, 5) \<and>
   map_option fst (getMove ''medium'' 226 idleState overBoard BLACK) = Some (7, 5) \<and>
   map_option fst (getMove ''hard'' 226 idleState overBoard BLACK) = Some (7, 5) \<and>
   map_option fst (getMove ''master'' 226 idleState overBoard BLACK) = Some (7, 5) \<and>
   winsAt overBoard BLACK (7, 5) \<and>
   map_option (res_winner \<circ> fst) (placeStone False overEngine 5 7) = Some (Some 0) \<and>
   map_option (gameOver \<circ> snd) (placeStone False overEngine 5 7) = Some False"
  by code_simp

subsection \<open>Iterative deepening keeps the last completed round\<close>

lemma lastCompleted_Nil: "lastCompleted [] = None"
  by (simp add: lastCompleted_def)

lemma lastCompleted_Cons:
  "lastCompleted (r # rs) =
     (case lastCompleted rs of
        Some c \<Rightarrow> Some c
      | None \<Rightarrow> if fst (snd r) then Some (fst r, snd (snd r)) else None)"
  by (auto simp: lastCompleted_def split: list.splits)

lemma top_exists:
  fixes es :: "('a \<times> rat) list"
  assumes "es \<noteq> []"
  shows "\<exists>e \<in> set es. list_all (\<lambda>e'. snd e' \<le> snd e) es"
proof -
  have "Max (snd ` set es) \<in> snd ` set es" using assms by (intro Max_in) auto
  then obtain e where e: "e \<in> set es" "snd e = Max (snd ` set es)" by auto
  have "snd e' \<le> snd e" if "e' \<in> set es" for e'
    unfolding e(2) using that by (intro Max_ge) auto
  with e(1) show ?thesis unfolding list_all_iff by blast
qed

lemma bestRoot_Nil: "bestRoot init [] = init"
  by (simp add: bestRoot_def)

lemma bestRoot_skip:
  assumes "s \<le> snd init"
  shows "bestRoot init ((m, s) # es) = bestRoot init es"
proof -
  have "find (\<lambda>e. snd init < snd e \<and> list_all (\<lambda>e'. snd e' \<le> snd e) ((m, s) # es)) es =
        find (\<lambda>e. snd init < snd e \<and> list_all (\<lambda>e'. snd e' \<le> snd e) es) es"
    using assms by (intro find_cong) auto
  with assms show ?thesis by (simp add: bestRoot_def)
qed

lemma bestRoot_take:
  assumes "snd init < s"
  shows "bestRoot init ((m, s) # es) = bestRoot (m, s) es"
proof (cases "list_all (\<lambda>e'. snd e' \<le> s) es")
  case True
  then have "find (\<lambda>e. s < snd e \<and> list_all (\<lambda>e'. snd e' \<le> snd e) es) es = None"
    unfolding find_None_iff list_all_iff by fastforce
  with True assms show ?thesis by (simp add: bestRoot_def)
next
  case False
  then obtain e' where e': "e' \<in> set es" "s < snd e'" by (auto simp: list_all_iff)
  then have ne: "es \<noteq> []" by auto
  have eq: "find (\<lambda>e. snd init < snd e \<and> list_all (\<lambda>e'. snd e' \<le> snd e) ((m, s) # es)) es =
        find (\<lambda>e. s < snd e \<and> list_all (\<lambda>e'. snd e' \<le> snd e) es) es"
  proof (intro find_cong refl)
    fix e assume "e \<in> set es"
    show "(snd init < snd e \<and> list_all (\<lambda>e'. snd e' \<le> snd e) ((m, s) # es)) =
          (s < snd e \<and> list_all (\<lambda>e'. snd e' \<le> snd e) es)"
      using e' assms by (fastforce simp: list_all_iff)
  qed
  from top_exists[OF ne] obtain e where
    e: "e \<in> set es" "list_all (\<lambda>e'. snd e' \<le> snd e) es" by blast
  with e' have "s < snd e" by (fastforce simp: list_all_iff)
  with e have "find (\<lambda>e. s < snd e \<and> list_all (\<lambda>e'. snd e' \<le> snd e) es) es \<noteq> None"
    unfolding find_None_iff by blast
  then obtain r where r: "find (\<lambda>e. s < snd e \<and> list_all (\<lambda>e'. snd e' \<le> snd e) es) es = Some r"
    by auto
  show ?thesis using False assms eq r by (simp add: bestRoot_def)
qed

lemma bestRoot_max:
  assumes "e \<in> set es"
  shows "snd e \<le> snd (bestRoot init es)"
proof (cases "find (\<lambda>e. snd init < snd e \<and> list_all (\<lambda>e'. snd e' \<le> snd e) es) es")
  case None
  from assms have "es \<noteq> []" by auto
  from top_exists[OF this] obtain t where
    t: "t \<in> set es" "list_all (\<lambda>e'. snd e' \<le> snd t) es" by blast
  from None have "\<not> (snd init < snd t \<and> list_all (\<lambda>e'. snd e' \<le> snd t) es)"
    unfolding find_None_iff using t(1) by blast
  with t(2) have "snd t \<le> snd init" by simp
  moreover have "snd e \<le> snd t" using t(2) assms unfolding list_all_iff by blast
  ultimately show ?thesis using None by (simp add: bestRoot_def)
next
  case (Some r)
  then have "list_all (\<lambda>e'. snd e' \<le> snd r) es" by (auto simp: find_Some_iff)
  with assms Some show ?thesis by (auto simp: bestRoot_def list_all_iff)
qed

lemma bestRoot_cases:
  "bestRoot init es = init \<or> (bestRoot init es \<in> set es \<and> snd init < snd (bestRoot init es))"
proof (cases "find (\<lambda>e. snd init < snd e \<and> list_all (\<lambda>e'. snd e' \<le> snd e) es) es")
  case None
  then show ?thesis by (simp add: bestRoot_def)
next
  case (Some r)
  then have "r \<in> set es \<and> snd init < snd r" by (auto simp: find_Some_iff)
  with Some show ?thesis by (simp add: bestRoot_def)
qed

text \<open>
  The root loop of the source returns the best of the moves it scored: \<open>searchRoot\<close>,
  with its two variables and its comparison \<open>score > bestScore\<close>, agrees with \<open>bestRoot\<close>
  on the scores that \<open>rootScores\<close> lists.
\<close>

lemma searchRoot_rootScores:
  "searchRoot fuel st b player depth ms bm bs =
     map_option (\<lambda>(es, b', st'). (fst (bestRoot (bm, bs) es), snd (bestRoot (bm, bs) es), b', st'))
       (rootScores fuel st b player depth ms)"
proof (induction ms arbitrary: st b bm bs)
  case Nil
  show ?case by (simp add: bestRoot_Nil)
next
  case (Cons m ms)
  show ?case
  proof (cases "alphabeta fuel st (bset b (fst (fst m)) (snd (fst m)) player) (depth - 1) (- INF_N) INF_N
             player (opponent player) False")
    case None
    then show ?thesis by simp
  next
    case (Some r)
    obtain score b1 st1 where r: "r = (score, b1, st1)" by (cases r)
    define b2 where "b2 = bset b1 (fst (fst m)) (snd (fst m)) EMPTY"
    show ?thesis
    proof (cases "timedOut st1")
      case True
      with Some r show ?thesis by (simp add: bestRoot_Nil)
    next
      case False
      show ?thesis
      proof (cases "rootScores fuel st1 b2 player depth ms")
        case None
        with Some r False Cons.IH[of st1 b2] show ?thesis
          by (simp add: b2_def[symmetric])
      next
        case inner: (Some q)
        obtain es b' st' where q: "q = (es, b', st')" by (cases q)
        show ?thesis
        proof (cases "score > bs")
          case True
          then have "bestRoot (bm, bs) ((m, score) # es) = bestRoot (m, score) es"
            by (intro bestRoot_take) simp
          with Some r False inner q True Cons.IH[of st1 b2 m score] show ?thesis
            by (simp add: b2_def[symmetric])
        next
          case le: False
          then have "bestRoot (bm, bs) ((m, score) # es) = bestRoot (bm, bs) es"
            by (intro bestRoot_skip) simp
          with Some r False inner q le Cons.IH[of st1 b2 bm bs] show ?thesis
            by (simp add: b2_def[symmetric])
        qed
      qed
    qed
  qed
qed

lemma rootScores_complete:
  "rootScores fuel st b player depth ms = Some (es, b', st') \<Longrightarrow> \<not> timedOut st' \<Longrightarrow>
     map fst es = ms"
proof (induction ms arbitrary: st b es)
  case Nil
  then show ?case by simp
next
  case (Cons m ms)
  from Cons.prems(1) obtain score b1 st1 where
    a: "alphabeta fuel st (bset b (fst (fst m)) (snd (fst m)) player) (depth - 1) (- INF_N) INF_N
             player (opponent player) False = Some (score, b1, st1)"
    by (auto split: option.splits)
  define b2 where "b2 = bset b1 (fst (fst m)) (snd (fst m)) EMPTY"
  have nt: "\<not> timedOut st1"
  proof
    assume "timedOut st1"
    with Cons.prems(1) a have "st' = st1" by simp
    with Cons.prems(2) \<open>timedOut st1\<close> show False by simp
  qed
  with Cons.prems(1) a obtain es' where
    r: "rootScores fuel st1 b2 player depth ms = Some (es', b', st')" and es: "es = (m, score) # es'"
    by (auto simp: b2_def[symmetric])
  from Cons.IH[OF r Cons.prems(2)] es show ?case by simp
qed

lemma probeWin_find:
  assumes "wf_board b" "\<forall>c \<in> set cs. emptyAt b c"
  shows "probeWin b who cs = (find (winsAt b who) cs, b)"
  using assms(2)
proof (induction cs)
  case Nil
  show ?case by simp
next
  case (Cons c cs)
  have "emptyAt b c" using Cons.prems by simp
  then have re: "bset (bset b (fst c) (snd c) who) (fst c) (snd c) EMPTY = b"
    using assms(1) by (simp add: bset_restore_wf emptyAt_def)
  show ?case using Cons re by (simp add: winsAt_def Let_def)
qed


lemma deepen_rounds:
  assumes "wf_board b" "225 < fuel" "\<forall>m \<in> set moves. emptyAt b (fst m)" "moves \<noteq> []"
  shows "\<exists>st'. deepen fuel st b player moves tlim ds best =
           Some (case lastCompleted (rounds fuel st b player moves tlim ds) of
                   None \<Rightarrow> best
                 | Some c \<Rightarrow> Some (fst (fst (roundBest moves (snd c)))), b, st')"
proof (induction ds arbitrary: st best)
  case Nil
  show ?case by (simp add: lastCompleted_Nil)
next
  case (Cons d ds)
  define st0 where "st0 = st\<lparr> nodesSearched := 0, timedOut := False \<rparr>"
  define top where "top = take 20 moves"
  have tops: "set top \<subseteq> set moves" unfolding top_def by (rule set_take_subset)
  then have e: "\<forall>m \<in> set top. emptyAt b (fst m)" using assms(3) by blast
  have "rootOk b (insert (top ! 0) (set top))
          (searchRoot fuel st0 b player d top (top ! 0) (- INF_N))"
    by (rule searchRoot_ok[OF assms(1,2) e])
  then obtain bm bs st1 where
    sr: "searchRoot fuel st0 b player d top (top ! 0) (- INF_N) = Some (bm, bs, b, st1)"
    by (rule rootOkE)
  from sr obtain es where
    ro: "rootScores fuel st0 b player d top = Some (es, b, st1)"
    and bm: "bm = fst (bestRoot (top ! 0, - INF_N) es)"
    and bs: "bs = snd (bestRoot (top ! 0, - INF_N) es)"
    unfolding searchRoot_rootScores by auto
  have rb: "roundBest moves es = (bm, bs)"
    by (simp add: roundBest_def top_def[symmetric] bm bs)
  define best1 where "best1 = (if \<not> timedOut st1 then Some (fst bm) else best)"
  obtain t st2 where dn: "dateNow st1 = (t, st2)" by (metis surj_pair)
  define stop where
    "stop \<longleftrightarrow> bs \<ge> WIN_SCORE \<or> of_int (t - startTime st2) > num_mul tlim lit_0_7"
  have res: "deepen fuel st b player moves tlim (d # ds) best =
     (if bs \<ge> WIN_SCORE then Some (best1, b, st1)
      else if of_int (t - startTime st2) > num_mul tlim lit_0_7 then Some (best1, b, st2)
      else deepen fuel st2 b player moves tlim ds best1)"
    using sr dn by (simp add: st0_def[symmetric] top_def[symmetric] best1_def Let_def)
  have rs: "rounds fuel st b player moves tlim (d # ds) =
     (d, \<not> timedOut st1, es) #
     (if stop then [] else rounds fuel st2 b player moves tlim ds)"
    using ro dn rb by (simp add: st0_def[symmetric] top_def[symmetric] stop_def)
  show ?case
  proof (cases stop)
    case True
    then show ?thesis
      unfolding res rs lastCompleted_Cons
      by (auto simp: lastCompleted_Nil best1_def stop_def rb)
  next
    case False
    from Cons.IH[of st2 best1] obtain st' where
      "deepen fuel st2 b player moves tlim ds best1 =
         Some (case lastCompleted (rounds fuel st2 b player moves tlim ds) of
                 None \<Rightarrow> best1
               | Some c \<Rightarrow> Some (fst (fst (roundBest moves (snd c)))), b, st')" by blast
    with False show ?thesis
      unfolding res rs lastCompleted_Cons
      by (auto simp: best1_def stop_def rb split: option.splits)
  qed
qed

lemma rounds_depths:
  "map fst (rounds fuel st b player moves tlim ds) =
     take (length (rounds fuel st b player moves tlim ds)) ds"
  by (induction ds arbitrary: st b) (auto split: option.splits prod.splits)

lemma rounds_complete:
  "r \<in> set (rounds fuel st b player moves tlim ds) \<Longrightarrow> fst (snd r) \<Longrightarrow>
     map fst (snd (snd r)) = take 20 moves"
proof (induction ds arbitrary: st b)
  case Nil
  then show ?case by simp
next
  case (Cons d ds)
  define st0 where "st0 = st\<lparr> nodesSearched := 0, timedOut := False \<rparr>"
  have "rootScores fuel st0 b player d (take 20 moves) \<noteq> None"
  proof
    assume "rootScores fuel st0 b player d (take 20 moves) = None"
    then have "rounds fuel st b player moves tlim (d # ds) = []"
      by (simp add: st0_def[symmetric])
    with Cons.prems(1) show False by (simp del: rounds.simps)
  qed
  then obtain es b1 st1 where
    ro: "rootScores fuel st0 b player d (take 20 moves) = Some (es, b1, st1)"
    by (metis not_None_eq prod_cases3)
  obtain t st2 where dn: "dateNow st1 = (t, st2)" by (metis surj_pair)
  from Cons.prems(1) ro dn have
    "r = (d, \<not> timedOut st1, es) \<or> r \<in> set (rounds fuel st2 b1 player moves tlim ds)"
    by (auto simp: st0_def[symmetric] split: if_splits)
  then show ?case
  proof
    assume r: "r = (d, \<not> timedOut st1, es)"
    with Cons.prems(2) have "\<not> timedOut st1" by simp
    from rootScores_complete[OF ro this] r show ?thesis by simp
  next
    assume "r \<in> set (rounds fuel st2 b1 player moves tlim ds)"
    from Cons.IH[OF this Cons.prems(2)] show ?thesis .
  qed
qed


lemma sorted_le_last:
  fixes xs :: "int list"
  shows "sorted xs \<Longrightarrow> x \<in> set xs \<Longrightarrow> x \<le> last xs"
proof (induction xs)
  case Nil
  then show ?case by simp
next
  case (Cons y ys)
  show ?case
  proof (cases "ys = []")
    case True
    with Cons.prems show ?thesis by simp
  next
    case False
    then have l: "last ys \<in> set ys" by simp
    show ?thesis
    proof (cases "x \<in> set ys")
      case True
      with Cons False show ?thesis by simp
    next
      case no: False
      with Cons.prems have "x = y" by simp
      with Cons.prems(1) l False show ?thesis by auto
    qed
  qed
qed

lemma lastCompleted_deepest:
  assumes "sorted (map fst rs)" "r \<in> set rs" "fst (snd r)"
  shows "\<exists>c. lastCompleted rs = Some c \<and> fst r \<le> fst c"
proof -
  define cs where "cs = filter (\<lambda>r. fst (snd r)) rs"
  have rc: "r \<in> set cs" using assms(2,3) by (simp add: cs_def)
  then have ne: "cs \<noteq> []" by auto
  have "sorted (map fst cs)" unfolding cs_def using assms(1) by (rule sorted_filter)
  moreover have "fst r \<in> set (map fst cs)" using rc by simp
  ultimately have "fst r \<le> last (map fst cs)" by (rule sorted_le_last)
  then have "fst r \<le> fst (last cs)" using ne by (simp add: last_map)
  moreover have "lastCompleted rs = Some (fst (last cs), snd (snd (last cs)))"
    using ne unfolding lastCompleted_def cs_def[symmetric] by (cases cs) simp_all
  ultimately show ?thesis by simp
qed

lemma orderedMoves_head_best:
  assumes "m \<in> set (getOrderedMoves b player r)"
  shows "snd m \<le> snd (getOrderedMoves b player r ! 0)"
proof -
  define ms where "ms = getOrderedMoves b player r"
  have s: "sorted (map (\<lambda>m. - snd m) ms)"
    unfolding ms_def getOrderedMoves_def by (rule sorted_sort_key)
  from assms obtain x xs where ms: "ms = x # xs" unfolding ms_def by (cases "getOrderedMoves b player r") auto
  with s assms have "- snd x \<le> - snd m" unfolding ms_def[symmetric] by auto
  then show ?thesis unfolding ms_def[symmetric] ms by simp
qed

lemma sorted_upto_prefix: "sorted (take k [1 .. n :: int])"
  by (rule sorted_wrt_take) simp

text \<open>
  Claim C6 as stated fails. On \<open>crossBoard\<close> black can win at (0, 4), and (7, 7) blocks two
  white fours; (7, 7) is first in the heuristic order, no round of the search is run (no
  node is searched), and \<open>findBestMoveIterative\<close> answers (0, 4), the immediate win.
\<close>

theorem iterative_shortcut_counterexample:
  "fst (getOrderedMoves crossBoard BLACK 2 ! 0) = (7, 7) \<and>
   map_option (map_prod id (nodesSearched \<circ> snd))
     (findBestMoveIterative 226 idleState crossBoard BLACK 6 2000 True) = Some ((0, 4), 0)"
  by code_simp

text \<open>
  Claim C6 as amended. On a well-formed board with a candidate, \<open>findBestMoveIterative\<close>
  returns the first root candidate, in heuristic order, whose placement makes \<open>checkWin\<close>
  true for the player, if there is one; otherwise the first whose placement would make it
  true for the opponent, if there is one; in both cases no depth is searched and the
  state is the one the rounds would start from. Otherwise it returns the best root move
  of the last round that completed without timing out, and the first root candidate when
  no round completed. Of the rounds: they run in increasing depth, so the last completed
  round is the deepest one; a completed round has scored every one of the (up to 20)
  root moves, and no root move of the round scored higher than its best move, which is
  the earliest among equals by \<open>bestRoot\<close>; a round that timed out leaves the answer as
  it was. The first root candidate has the highest heuristic score.
\<close>

theorem iterative_returns_deepest_completed:
  assumes wf: "wf_board b" and fuel: "225 < fuel" and ne: "generateCandidates b 2 \<noteq> []"
  shows "(case find (winsAt b player) (map fst (getOrderedMoves b player 2)) of
            Some c \<Rightarrow>
              findBestMoveIterative fuel st b player maxDepth timeLimitMs advancedEval =
                Some (c, b, iterativeStart st timeLimitMs advancedEval)
          | None \<Rightarrow>
              (case find (winsAt b (opponent player)) (map fst (getOrderedMoves b player 2)) of
                 Some c \<Rightarrow>
                   findBestMoveIterative fuel st b player maxDepth timeLimitMs advancedEval =
                     Some (c, b, iterativeStart st timeLimitMs advancedEval)
               | None \<Rightarrow>
                   (\<exists>st'. findBestMoveIterative fuel st b player maxDepth timeLimitMs advancedEval =
                      Some (deepestBest (getOrderedMoves b player 2)
                              (iterativeRounds fuel st b player maxDepth timeLimitMs advancedEval),
                            b, st')))) \<and>
         (\<forall>r \<in> set (iterativeRounds fuel st b player maxDepth timeLimitMs advancedEval).
            fst (snd r) \<longrightarrow>
              (\<exists>c. lastCompleted
                      (iterativeRounds fuel st b player maxDepth timeLimitMs advancedEval) = Some c \<and>
                   fst r \<le> fst c) \<and>
              map fst (snd (snd r)) = take 20 (getOrderedMoves b player 2) \<and>
              (\<forall>e \<in> set (snd (snd r)).
                 snd e \<le> snd (roundBest (getOrderedMoves b player 2) (snd (snd r))))) \<and>
         (\<forall>m \<in> set (getOrderedMoves b player 2).
            snd m \<le> snd (getOrderedMoves b player 2 ! 0))"
proof (intro conjI)
  obtain t st0 where dn: "dateNow st = (t, st0)" by (metis surj_pair)
  define st1 where "st1 = st0\<lparr> startTime := t, timeLimit := timeLimitMs, timedOut := False,
                       useAdvancedEval := advancedEval \<rparr>"
  have is1: "iterativeStart st timeLimitMs advancedEval = st1"
    by (simp add: iterativeStart_def dn st1_def)
  define moves where "moves = getOrderedMoves b player 2"
  define rs where "rs = rounds fuel st1 b player moves timeLimitMs [1 .. maxDepth]"
  have ir: "iterativeRounds fuel st b player maxDepth timeLimitMs advancedEval = rs"
    by (simp add: iterativeRounds_def is1 rs_def moves_def)
  have fm: "fst ` set moves = set (generateCandidates b 2)"
    unfolding moves_def by (rule set_getOrderedMoves)
  have mne: "moves \<noteq> []" using ne fm by auto
  have em: "\<forall>m \<in> set moves. emptyAt b (fst m)"
    unfolding moves_def using orderedMoves_empty by blast
  then have emf: "\<forall>c \<in> set (map fst moves). emptyAt b c" by simp
  have unf: "findBestMoveIterative fuel st b player maxDepth timeLimitMs advancedEval =
     (if length moves = 0 then Some ((CENTER, CENTER), b, st1)
      else
        case probeWin b player (map fst moves) of
          (Some c, b1) \<Rightarrow> Some (c, b1, st1)
        | (None, b1) \<Rightarrow>
            case probeWin b1 (opponent player) (map fst moves) of
              (Some c, b2) \<Rightarrow> Some (c, b2, st1)
            | (None, b2) \<Rightarrow>
                case deepen fuel st1 b2 player moves timeLimitMs [1 .. maxDepth] None of
                  None \<Rightarrow> None
                | Some (bestMove, b3, st2) \<Rightarrow>
                    Some (case bestMove of Some c \<Rightarrow> c | None \<Rightarrow> fst (moves ! 0), b3, st2))"
    unfolding findBestMoveIterative_def dn st1_def moves_def Let_def prod.case ..
  note p1 = probeWin_find[OF wf emf, of player]
  note p2 = probeWin_find[OF wf emf, of "opponent player"]
  from deepen_rounds[OF wf fuel em mne, of st1 player timeLimitMs "[1 .. maxDepth]" None]
  obtain st' where dp: "deepen fuel st1 b player moves timeLimitMs [1 .. maxDepth] None =
       Some (case lastCompleted rs of
               None \<Rightarrow> None
             | Some c \<Rightarrow> Some (fst (fst (roundBest moves (snd c)))), b, st')"
    unfolding rs_def by blast
  have quiet: "findBestMoveIterative fuel st b player maxDepth timeLimitMs advancedEval =
          Some (deepestBest moves rs, b, st')"
    if "find (winsAt b player) (map fst moves) = None"
       "find (winsAt b (opponent player)) (map fst moves) = None"
    using mne that dp
    by (simp add: unf p1 p2 deepestBest_def split: option.splits)
  show "case find (winsAt b player) (map fst (getOrderedMoves b player 2)) of
            Some c \<Rightarrow>
              findBestMoveIterative fuel st b player maxDepth timeLimitMs advancedEval =
                Some (c, b, iterativeStart st timeLimitMs advancedEval)
          | None \<Rightarrow>
              (case find (winsAt b (opponent player)) (map fst (getOrderedMoves b player 2)) of
                 Some c \<Rightarrow>
                   findBestMoveIterative fuel st b player maxDepth timeLimitMs advancedEval =
                     Some (c, b, iterativeStart st timeLimitMs advancedEval)
               | None \<Rightarrow>
                   (\<exists>st'. findBestMoveIterative fuel st b player maxDepth timeLimitMs advancedEval =
                      Some (deepestBest (getOrderedMoves b player 2)
                              (iterativeRounds fuel st b player maxDepth timeLimitMs advancedEval),
                            b, st')))"
    unfolding ir is1 moves_def[symmetric]
  proof (cases "find (winsAt b player) (map fst moves)")
    case (Some c)
    then show "case find (winsAt b player) (map fst moves) of
        Some c \<Rightarrow> findBestMoveIterative fuel st b player maxDepth timeLimitMs advancedEval =
                    Some (c, b, st1)
      | None \<Rightarrow>
          (case find (winsAt b (opponent player)) (map fst moves) of
             Some c \<Rightarrow> findBestMoveIterative fuel st b player maxDepth timeLimitMs advancedEval =
                         Some (c, b, st1)
           | None \<Rightarrow>
               (\<exists>st'. findBestMoveIterative fuel st b player maxDepth timeLimitMs advancedEval =
                  Some (deepestBest moves rs, b, st')))"
      using mne by (simp add: unf p1)
  next
    case None
    show "case find (winsAt b player) (map fst moves) of
        Some c \<Rightarrow> findBestMoveIterative fuel st b player maxDepth timeLimitMs advancedEval =
                    Some (c, b, st1)
      | None \<Rightarrow>
          (case find (winsAt b (opponent player)) (map fst moves) of
             Some c \<Rightarrow> findBestMoveIterative fuel st b player maxDepth timeLimitMs advancedEval =
                         Some (c, b, st1)
           | None \<Rightarrow>
               (\<exists>st'. findBestMoveIterative fuel st b player maxDepth timeLimitMs advancedEval =
                  Some (deepestBest moves rs, b, st')))"
    proof (cases "find (winsAt b (opponent player)) (map fst moves)")
      case (Some c)
      with None show ?thesis using mne by (simp add: unf p1 p2)
    next
      case n2: None
      from quiet[OF None n2] None n2 show ?thesis by auto
    qed
  qed
  have srt: "sorted (map fst rs)"
    unfolding rs_def rounds_depths by (rule sorted_upto_prefix)
  have "\<forall>r \<in> set rs. fst (snd r) \<longrightarrow>
              (\<exists>c. lastCompleted rs = Some c \<and> fst r \<le> fst c) \<and>
              map fst (snd (snd r)) = take 20 moves \<and>
              (\<forall>e \<in> set (snd (snd r)). snd e \<le> snd (roundBest moves (snd (snd r))))"
  proof (intro ballI impI conjI)
    fix r assume r: "r \<in> set rs" "fst (snd r)"
    show "\<exists>c. lastCompleted rs = Some c \<and> fst r \<le> fst c"
      by (rule lastCompleted_deepest[OF srt r])
    show "map fst (snd (snd r)) = take 20 moves"
      using r unfolding rs_def by (rule rounds_complete)
    fix e assume "e \<in> set (snd (snd r))"
    then show "snd e \<le> snd (roundBest moves (snd (snd r)))"
      unfolding roundBest_def by (rule bestRoot_max)
  qed
  then show "\<forall>r \<in> set (iterativeRounds fuel st b player maxDepth timeLimitMs advancedEval).
            fst (snd r) \<longrightarrow>
              (\<exists>c. lastCompleted
                      (iterativeRounds fuel st b player maxDepth timeLimitMs advancedEval) = Some c \<and>
                   fst r \<le> fst c) \<and>
              map fst (snd (snd r)) = take 20 (getOrderedMoves b player 2) \<and>
              (\<forall>e \<in> set (snd (snd r)).
                 snd e \<le> snd (roundBest (getOrderedMoves b player 2) (snd (snd r))))"
    unfolding ir moves_def .
  show "\<forall>m \<in> set (getOrderedMoves b player 2).
            snd m \<le> snd (getOrderedMoves b player 2 ! 0)"
    using orderedMoves_head_best by blast
qed

lemma cands_threeBoard: "generateCandidates threeBoard 2 \<noteq> []"
  by code_simp

lemma quiet_threeBoard:
  "find (winsAt threeBoard BLACK) (map fst (getOrderedMoves threeBoard BLACK 2)) = None \<and>
   find (winsAt threeBoard (opponent BLACK)) (map fst (getOrderedMoves threeBoard BLACK 2)) = None"
  by code_simp

theorem iterative_returns_deepest_completed_witness:
  "wf_board threeBoard \<and> (225::nat) < 226 \<and> generateCandidates threeBoard 2 \<noteq> [] \<and>
   find (winsAt threeBoard BLACK) (map fst (getOrderedMoves threeBoard BLACK 2)) = None \<and>
   find (winsAt threeBoard (opponent BLACK)) (map fst (getOrderedMoves threeBoard BLACK 2)) = None \<and>
   (\<exists>st'. findBestMoveIterative 226 idleState threeBoard BLACK 6 2000 True =
       Some (deepestBest (getOrderedMoves threeBoard BLACK 2)
               (iterativeRounds 226 idleState threeBoard BLACK 6 2000 True), threeBoard, st'))"
proof -
  have f: "(225::nat) < 226" by simp
  show ?thesis
    using iterative_returns_deepest_completed[OF wf_threeBoard f cands_threeBoard,
            where st = idleState and player = BLACK and maxDepth = 6 and timeLimitMs = 2000
              and advancedEval = True]
          wf_threeBoard f cands_threeBoard quiet_threeBoard
    by simp
qed

subsection \<open>The basic evaluator\<close>















text \<open>
  A sum of at most \<open>n\<close> integers between 0 and \<open>M\<close> is an integer between 0 and \<open>n * M\<close>.
\<close>

lemma sum_list_small:
  fixes f :: "'a \<Rightarrow> rat"
  assumes "\<And>x. x \<in> set xs \<Longrightarrow> f x \<in> \<int> \<and> 0 \<le> f x \<and> f x \<le> M"
  shows "sum_list (map f xs) \<in> \<int> \<and> 0 \<le> sum_list (map f xs) \<and>
         sum_list (map f xs) \<le> of_nat (length xs) * M"
  using assms
proof (induction xs)
  case Nil
  show ?case by simp
next
  case (Cons x xs)
  have x: "f x \<in> \<int> \<and> 0 \<le> f x \<and> f x \<le> M" using Cons.prems by simp
  have "sum_list (map f xs) \<in> \<int> \<and> 0 \<le> sum_list (map f xs) \<and>
         sum_list (map f xs) \<le> of_nat (length xs) * M"
    by (rule Cons.IH) (simp add: Cons.prems)
  with x show ?case by (simp add: algebra_simps)
qed

lemma spec_patternWeight_small:
  "spec_patternWeight n opn \<in> \<int> \<and> 0 \<le> spec_patternWeight n opn \<and>
   spec_patternWeight n opn \<le> 10000000"
  by (simp add: spec_patternWeight_def FIVE_def OPEN_FOUR_def HALF_OPEN_FOUR_def OPEN_THREE_def
        HALF_OPEN_THREE_def OPEN_TWO_def HALF_OPEN_TWO_def OPEN_ONE_def)

lemma spec_runWeight_small:
  "spec_runWeight b who d c \<in> \<int> \<and> 0 \<le> spec_runWeight b who d c \<and>
   spec_runWeight b who d c \<le> 10000000"
  using spec_patternWeight_small by (simp add: spec_runWeight_def)

lemma centerBonus_small: "centerBonus i j \<in> \<int> \<and> 0 \<le> centerBonus i j \<and> centerBonus i j \<le> 7"
  by (simp add: centerBonus_def)

lemma spec_runsScore_small:
  "spec_runsScore b who \<in> \<int> \<and> 0 \<le> spec_runsScore b who \<and> spec_runsScore b who \<le> 9000000000"
proof -
  have inner: "sum_list (map (\<lambda>c. spec_runWeight b who d c) ALL_CELLS) \<in> \<int> \<and>
        0 \<le> sum_list (map (\<lambda>c. spec_runWeight b who d c) ALL_CELLS) \<and>
        sum_list (map (\<lambda>c. spec_runWeight b who d c) ALL_CELLS) \<le> 2250000000" for d
    using sum_list_small[of ALL_CELLS "\<lambda>c. spec_runWeight b who d c" 10000000]
          spec_runWeight_small
    by (simp add: length_ALL_CELLS)
  show ?thesis
    unfolding spec_runsScore_def
    using sum_list_small[of DIRECTIONS
            "\<lambda>d. sum_list (map (\<lambda>c. spec_runWeight b who d c) ALL_CELLS)" 2250000000] inner
    by (simp add: DIRECTIONS_def)
qed

lemma spec_centerScore_small:
  "spec_centerScore b who \<in> \<int> \<and> 0 \<le> spec_centerScore b who \<and> spec_centerScore b who \<le> 1575"
proof -
  have "(if bget b (fst c) (snd c) = who then centerBonus (fst c) (snd c) else 0) \<in> \<int> \<and>
        0 \<le> (if bget b (fst c) (snd c) = who then centerBonus (fst c) (snd c) else 0) \<and>
        (if bget b (fst c) (snd c) = who then centerBonus (fst c) (snd c) else 0) \<le> 7" for c
    using centerBonus_small by simp
  from sum_list_small[of ALL_CELLS _ 7, OF this] show ?thesis
    unfolding spec_centerScore_def by (simp add: length_ALL_CELLS)
qed

text \<open>
  The two accumulators of \<open>evaluateBoard\<close> are integers below \<open>2^53\<close>, hence doubles; so is
  every partial sum on the way, which is a sum of the same kind over fewer cells.
\<close>

lemma accumulators_are_doubles:
  "toDouble (spec_runsScore b player + spec_centerScore b player) =
     spec_runsScore b player + spec_centerScore b player \<and>
   toDouble (spec_runsScore b (opponent player)) = spec_runsScore b (opponent player)"
proof -
  have small: "toDouble x = x" if "x \<in> \<int>" "0 \<le> x" "x \<le> 9000001575" for x :: rat
  proof -
    from that(1) obtain n where n: "x = of_int n" by (rule Ints_cases)
    with that(2,3) have "0 \<le> n" "n \<le> 9000001575" by simp_all
    then have "\<bar>n\<bar> < 2 ^ 53" by simp
    from toDouble_int[OF this] n show ?thesis by simp
  qed
  from spec_runsScore_small[of b player] spec_centerScore_small[of b player]
  have "toDouble (spec_runsScore b player + spec_centerScore b player) =
     spec_runsScore b player + spec_centerScore b player"
    by (intro small) auto
  moreover from spec_runsScore_small[of b "opponent player"]
  have "toDouble (spec_runsScore b (opponent player)) = spec_runsScore b (opponent player)"
    by (intro small) auto
  ultimately show ?thesis by simp
qed




end
